theory Spec2Isabelle
  imports Main "HOL-Library.AList" "HOL-Library.Sublist"
begin

section \<open>Strings and path names\<close>

text \<open>
  A path is the list of its components below the filesystem root, so \<open>[]\<close> is the root
  directory, \<open>os.path.join root file\<close> is \<open>root @ [file]\<close> and \<open>os.path.dirname\<close>
  is \<open>butlast\<close>. Only absolute paths are modelled.
\<close>

type_synonym path = "string list"

text \<open>
  A character of a name is a code point below 256. \<open>str.lower\<close> lowers the letters
  \<open>A\<close> to \<open>Z\<close> and the letters from U+00C0 to U+00DE, the sign U+00D7 apart.
\<close>

definition name_of :: "path \<Rightarrow> string" where
  "name_of p = (if p = [] then [] else last p)"

definition lower_char :: "char \<Rightarrow> char" where
  "lower_char c =
     (let n = (of_char c :: nat)
      in if (65 \<le> n \<and> n \<le> 90) \<or> (192 \<le> n \<and> n \<le> 222 \<and> n \<noteq> 215)
         then char_of (n + 32) else c)"

definition lower :: "string \<Rightarrow> string" where
  "lower s = map lower_char s"

text \<open>The text after the last dot of a name, and whether the name has a dot at all.\<close>

definition after_dot :: "string \<Rightarrow> string" where
  "after_dot name = rev (takeWhile (\<lambda>c. c \<noteq> CHR ''.'') (rev name))"

definition has_dot :: "string \<Rightarrow> bool" where
  "has_dot name = (CHR ''.'' \<in> set name)"

text \<open>
  \<open>Path(name).suffix\<close> and \<open>Path(name).stem\<close> of pathlib: with \<open>i\<close> the index of the last
  dot, the suffix is \<open>name[i:]\<close> when \<open>0 < i < len(name) - 1\<close> and empty otherwise.
\<close>

definition suffix_of :: "string \<Rightarrow> string" where
  "suffix_of name =
     (if has_dot name \<and> after_dot name \<noteq> [] \<and> Suc (length (after_dot name)) < length name
      then CHR ''.'' # after_dot name else [])"

definition stem_of :: "string \<Rightarrow> string" where
  "stem_of name = take (length name - length (suffix_of name)) name"

text \<open>
  \<open>os.path.splitext\<close> on the last component: the extension starts at the last dot, unless
  only dots precede it.
\<close>

definition splitext :: "string \<Rightarrow> string \<times> string" where
  "splitext name =
     (let e = after_dot name; b = take (length name - Suc (length e)) name
      in if has_dot name \<and> (\<exists>c \<in> set b. c \<noteq> CHR ''.'')
         then (b, CHR ''.'' # e) else (name, []))"

text \<open>The decimal numeral that an f-string prints for a counter.\<close>

definition digit_char :: "nat \<Rightarrow> char" where
  "digit_char d = char_of (48 + d)"

fun str_nat :: "nat \<Rightarrow> string" where
  "str_nat n = (if n < 10 then [digit_char n] else str_nat (n div 10) @ [digit_char (n mod 10)])"

declare str_nat.simps [simp del]

section \<open>The filesystem\<close>

text \<open>
  File contents are opaque data of a given length, or a well-formed archive of some
  container format holding members (relative path and contents). The filesystem is an
  association list from paths to nodes; the order of the list is the order in which a
  directory scan reports entries.
\<close>

datatype fmt = Zip | Rar | Other

datatype blob = Data nat | Packed fmt "(path \<times> blob) list"

datatype node = File blob | Dir

type_synonym fs = "(path \<times> node) list"

datatype exn =
    FileNotFoundError | IsADirectoryError | NotADirectoryError | FileExistsError
  | DirectoryNotEmpty | DecodeError | ShutilError | CancelledError

fun blob_size :: "blob \<Rightarrow> nat" where
  "blob_size (Data n) = n"
| "blob_size (Packed f ms) = Suc (length ms)"

definition node_at :: "fs \<Rightarrow> path \<Rightarrow> node option" where
  "node_at fs p = (if p = [] then Some Dir else map_of fs p)"

definition path_exists :: "fs \<Rightarrow> path \<Rightarrow> bool" where
  "path_exists fs p = (node_at fs p \<noteq> None)"

definition is_dir :: "fs \<Rightarrow> path \<Rightarrow> bool" where
  "is_dir fs p = (node_at fs p = Some Dir)"

definition is_file :: "fs \<Rightarrow> path \<Rightarrow> bool" where
  "is_file fs p = (case node_at fs p of Some (File b) \<Rightarrow> True | _ \<Rightarrow> False)"

text \<open>A well-formed filesystem: one node per path, and every node lies in a directory.\<close>

definition wf_fs :: "fs \<Rightarrow> bool" where
  "wf_fs fs = (distinct (map fst fs) \<and> (\<forall>(p, n) \<in> set fs. p \<noteq> [] \<and> is_dir fs (butlast p)))"

text \<open>The error of a system call on a path that does not exist.\<close>

definition missing :: "fs \<Rightarrow> path \<Rightarrow> exn" where
  "missing fs p = (if \<exists>q \<in> set (prefixes p). is_file fs q then NotADirectoryError
                   else FileNotFoundError)"

definition dir_size :: nat where
  "dir_size = 4096"

definition getsize :: "fs \<Rightarrow> path \<Rightarrow> exn + nat" where
  "getsize fs p =
     (case node_at fs p of
        Some (File b) \<Rightarrow> Inr (blob_size b)
      | Some Dir \<Rightarrow> Inr dir_size
      | None \<Rightarrow> Inl (missing fs p))"

definition os_remove :: "path \<Rightarrow> fs \<Rightarrow> (exn + unit) \<times> fs" where
  "os_remove p fs =
     (case node_at fs p of
        Some (File b) \<Rightarrow> (Inr (), AList.delete p fs)
      | Some Dir \<Rightarrow> (Inl IsADirectoryError, fs)
      | None \<Rightarrow> (Inl (missing fs p), fs))"

definition listdir :: "fs \<Rightarrow> path \<Rightarrow> string list" where
  "listdir fs d = map (\<lambda>(p, n). last p) (filter (\<lambda>(p, n). p \<noteq> [] \<and> butlast p = d) fs)"

definition list_files :: "fs \<Rightarrow> path \<Rightarrow> string list" where
  "list_files fs d =
     map (\<lambda>(p, n). last p) (filter (\<lambda>(p, n). p \<noteq> [] \<and> butlast p = d \<and> n \<noteq> Dir) fs)"

definition list_dirs :: "fs \<Rightarrow> path \<Rightarrow> string list" where
  "list_dirs fs d =
     map (\<lambda>(p, n). last p) (filter (\<lambda>(p, n). p \<noteq> [] \<and> butlast p = d \<and> n = Dir) fs)"

definition os_rmdir :: "path \<Rightarrow> fs \<Rightarrow> (exn + unit) \<times> fs" where
  "os_rmdir p fs =
     (if p = [] then (Inl DirectoryNotEmpty, fs)
      else case node_at fs p of
        Some Dir \<Rightarrow> (if listdir fs p = [] then (Inr (), AList.delete p fs)
                     else (Inl DirectoryNotEmpty, fs))
      | Some (File b) \<Rightarrow> (Inl NotADirectoryError, fs)
      | None \<Rightarrow> (Inl (missing fs p), fs))"

definition os_mkdir :: "path \<Rightarrow> fs \<Rightarrow> (exn + unit) \<times> fs" where
  "os_mkdir p fs =
     (if path_exists fs p then (Inl FileExistsError, fs)
      else case node_at fs (butlast p) of
        Some Dir \<Rightarrow> (Inr (), AList.update p Dir fs)
      | Some (File b) \<Rightarrow> (Inl NotADirectoryError, fs)
      | None \<Rightarrow> (Inl (missing fs (butlast p)), fs))"

text \<open>
  \<open>os.makedirs(name, exist_ok=True)\<close>: the parent is created first when it does not
  exist, then the directory itself; an error of the last \<open>mkdir\<close> is dropped when the
  name is a directory by then. The recursion is on the reversed path.
\<close>

fun makedirs_rev :: "string list \<Rightarrow> fs \<Rightarrow> (exn + unit) \<times> fs" where
  "makedirs_rev [] fs = (Inr (), fs)"
| "makedirs_rev (tail # rhead) fs =
     (let name = rev (tail # rhead); head = rev rhead;
          (r, fs1) = (if head \<noteq> [] \<and> \<not> path_exists fs head
                      then (case makedirs_rev rhead fs of
                              (Inl FileExistsError, fs') \<Rightarrow> (Inr (), fs')
                            | other \<Rightarrow> other)
                      else (Inr (), fs))
      in case r of
           Inl e \<Rightarrow> (Inl e, fs1)
         | Inr u \<Rightarrow> (case os_mkdir name fs1 of
                       (Inl e, fs2) \<Rightarrow> (if is_dir fs2 name then (Inr (), fs2) else (Inl e, fs2))
                     | (Inr u, fs2) \<Rightarrow> (Inr (), fs2)))"

definition makedirs :: "path \<Rightarrow> fs \<Rightarrow> (exn + unit) \<times> fs" where
  "makedirs p fs = makedirs_rev (rev p) fs"

section \<open>The codec library\<close>

text \<open>
  Modelled from the spec: the archive libraries (\<open>zipfile\<close>, \<open>rarfile\<close>, \<open>patoolib\<close>) are
  not part of the repository. \<open>decode(archive_path, dest_dir)\<close> writes every member of a
  well-formed archive below the destination, creating missing directories and replacing
  regular files of the same name; it fails on contents that are not an archive, and on a
  member that needs a directory where a file is, or the reverse. Members written before
  a failure stay. \<open>zipfile\<close> reads zip containers only, \<open>rarfile\<close> rar containers only,
  \<open>patoolib\<close> every container.
\<close>

datatype library = ZipFile | RarFile | Patool

fun reads :: "library \<Rightarrow> fmt \<Rightarrow> bool" where
  "reads ZipFile f = (f = Zip)"
| "reads RarFile f = (f = Rar)"
| "reads Patool f = True"

fun write_members :: "path \<Rightarrow> (path \<times> blob) list \<Rightarrow> fs \<Rightarrow> (exn + unit) \<times> fs" where
  "write_members d [] fs = (Inr (), fs)"
| "write_members d ((rel, b) # ms) fs =
     (if rel = [] then (Inl DecodeError, fs)
      else case makedirs (d @ butlast rel) fs of
             (Inl e, fs1) \<Rightarrow> (Inl e, fs1)
           | (Inr u, fs1) \<Rightarrow>
               (if is_dir fs1 (d @ rel) then (Inl IsADirectoryError, fs1)
                else write_members d ms (AList.update (d @ rel) (File b) fs1)))"

definition decode :: "library \<Rightarrow> path \<Rightarrow> path \<Rightarrow> fs \<Rightarrow> (exn + unit) \<times> fs" where
  "decode lib f d fs =
     (case node_at fs f of
        Some (File (Packed fm ms)) \<Rightarrow>
          (if reads lib fm then write_members d ms fs else (Inl DecodeError, fs))
      | Some (File (Data n)) \<Rightarrow> (Inl DecodeError, fs)
      | Some Dir \<Rightarrow> (Inl IsADirectoryError, fs)
      | None \<Rightarrow> (Inl (missing fs f), fs))"

text \<open>
  Modelled from the spec: \<open>patoolib.is_archive\<close> is format sniffing, "magic-byte or
  extension based": a probe sees the name of the file and, when the path is a regular
  file, its contents. It is a parameter of everything that probes.
\<close>

type_synonym probe = "string \<Rightarrow> blob option \<Rightarrow> bool"

definition contents :: "fs \<Rightarrow> path \<Rightarrow> blob option" where
  "contents fs p = (case node_at fs p of Some (File b) \<Rightarrow> Some b | _ \<Rightarrow> None)"

section \<open>FileValidator\<close>

text \<open>\<open>is_empty\<close> catches \<open>FileNotFoundError\<close> and \<open>PermissionError\<close> only.\<close>

definition is_empty :: "fs \<Rightarrow> path \<Rightarrow> exn + bool" where
  "is_empty fs file_path =
     (case getsize fs file_path of
        Inr n \<Rightarrow> Inr (n = 0)
      | Inl FileNotFoundError \<Rightarrow> Inr False
      | Inl e \<Rightarrow> Inl e)"

definition is_archive :: "probe \<Rightarrow> fs \<Rightarrow> path \<Rightarrow> bool" where
  "is_archive pr fs file_path = pr (name_of file_path) (contents fs file_path)"

section \<open>ArchiveHandler\<close>

definition SUPPORTED_FORMATS :: "(string \<times> library) list" where
  "SUPPORTED_FORMATS =
     [(''.zip'', ZipFile), (''.jar'', ZipFile), (''.cbz'', ZipFile), (''.war'', ZipFile),
      (''.ear'', ZipFile),
      (''.rar'', RarFile), (''.cbr'', RarFile),
      (''.7z'', Patool), (''.cb7'', Patool),
      (''.gz'', Patool), (''.bz2'', Patool), (''.bz3'', Patool), (''.tbz2'', Patool),
      (''.tar'', Patool), (''.tgz'', Patool), (''.txz'', Patool), (''.cbt'', Patool),
      (''.iso'', Patool), (''.udf'', Patool),
      (''.deb'', Patool), (''.rpm'', Patool),
      (''.ace'', Patool), (''.cba'', Patool), (''.arj'', Patool), (''.cab'', Patool),
      (''.chm'', Patool), (''.cpio'', Patool), (''.dms'', Patool), (''.lha'', Patool),
      (''.lzh'', Patool), (''.lzma'', Patool), (''.lzo'', Patool), (''.xz'', Patool),
      (''.zst'', Patool), (''.zoo'', Patool),
      (''.adf'', Patool), (''.alz'', Patool), (''.arc'', Patool), (''.shn'', Patool),
      (''.rz'', Patool), (''.lrz'', Patool), (''.a'', Patool), (''.Z'', Patool)]"

text \<open>The handler of an extension, with the fallback for every other extension.\<close>

definition handler :: "string \<Rightarrow> library" where
  "handler ext = (case map_of SUPPORTED_FORMATS ext of Some lib \<Rightarrow> lib | None \<Rightarrow> Patool)"

text \<open>
  \<open>ArchiveHandler.extract\<close> (\<open>extract\<close> alone is a command of Isabelle). The emptiness check is outside the \<open>try\<close>; the handler and
  the first \<open>os.remove\<close> are inside it; the \<open>os.remove\<close> of the \<open>except\<close> branch is not
  guarded.
\<close>

definition archive_extract :: "path \<Rightarrow> path \<Rightarrow> fs \<Rightarrow> (exn + bool) \<times> fs" where
  "archive_extract file_path destination fs =
     (case is_empty fs file_path of
        Inl e \<Rightarrow> (Inl e, fs)
      | Inr True \<Rightarrow> (Inr False, fs)
      | Inr False \<Rightarrow>
          (let ext = lower (suffix_of (name_of file_path));
               (r, fs1) = decode (handler ext) file_path destination fs;
               (r', fs2) = (case r of Inl e \<Rightarrow> (Inl e, fs1) | Inr u \<Rightarrow> os_remove file_path fs1)
           in case r' of
                Inr u \<Rightarrow> (Inr True, fs2)
              | Inl e \<Rightarrow>
                  (if path_exists fs2 file_path
                   then (case os_remove file_path fs2 of
                           (Inl e', fs3) \<Rightarrow> (Inl e', fs3)
                         | (Inr u, fs3) \<Rightarrow> (Inr False, fs3))
                   else (Inr False, fs2))))"

section \<open>FileManager\<close>

text \<open>\<open>delete_if_empty\<close> turns every exception into a result.\<close>

definition delete_if_empty :: "path \<Rightarrow> fs \<Rightarrow> bool \<times> fs" where
  "delete_if_empty file_path fs =
     (case getsize fs file_path of
        Inl FileNotFoundError \<Rightarrow> (True, fs)
      | Inl e \<Rightarrow> (False, fs)
      | Inr n \<Rightarrow>
          (if n = 0
           then (case os_remove file_path fs of
                   (Inr u, fs1) \<Rightarrow> (True, fs1)
                 | (Inl FileNotFoundError, fs1) \<Rightarrow> (True, fs1)
                 | (Inl e, fs1) \<Rightarrow> (False, fs1))
           else (False, fs)))"

text \<open>
  \<open>shutil.move\<close> onto a path that does not exist renames the source, a directory with all
  it holds; onto a directory it moves the source into it; onto a file it replaces the
  file.
\<close>

definition rename_tree :: "path \<Rightarrow> path \<Rightarrow> fs \<Rightarrow> fs" where
  "rename_tree src dst fs =
     map (\<lambda>(p, n). (if prefix src p then dst @ drop (length src) p else p, n)) fs"

definition shutil_move :: "path \<Rightarrow> path \<Rightarrow> fs \<Rightarrow> (exn + unit) \<times> fs" where
  "shutil_move src dst fs =
     (if src = [] then (Inl ShutilError, fs)
      else case node_at fs src of
        None \<Rightarrow> (Inl (missing fs src), fs)
      | Some n \<Rightarrow>
          (let real_dst = (if is_dir fs dst \<and> dst \<noteq> src then dst @ [last src] else dst)
           in if real_dst \<noteq> dst \<and> path_exists fs real_dst then (Inl ShutilError, fs)
              else if real_dst = src then (Inr (), fs)
              else if n = Dir \<and> prefix src real_dst then (Inl ShutilError, fs)
              else if \<not> is_dir fs (butlast real_dst) then (Inl (missing fs real_dst), fs)
              else if n = Dir \<and> path_exists fs real_dst then (Inl NotADirectoryError, fs)
              else (Inr (), rename_tree src real_dst (AList.delete real_dst fs))))"

text \<open>The candidate name of the conflict loop for a counter.\<close>

definition candidate :: "path \<Rightarrow> nat \<Rightarrow> path" where
  "candidate destination counter =
     (let (base, ext) = splitext (name_of destination)
      in butlast destination @ [base @ ''_'' @ str_nat counter @ ext])"

text \<open>
  The conflict loop of \<open>move_file\<close>: \<open>base\<close> and \<open>ext\<close> come from the destination
  first asked for, the counter starts at 1.
\<close>

lemma of_char_digit_char: "d < 10 \<Longrightarrow> (of_char (digit_char d) :: nat) = 48 + d"
  by (simp add: digit_char_def)

lemma str_nat_value:
  "foldl (\<lambda>a c. 10 * a + ((of_char c :: nat) - 48)) 0 (str_nat n) = n"
proof (induction n rule: str_nat.induct)
  case (1 n)
  show ?case
  proof (cases "n < 10")
    case True
    then show ?thesis by (simp add: str_nat.simps [of n] of_char_digit_char)
  next
    case False
    have "n mod 10 < 10" by simp
    with False "1" show ?thesis
      by (simp add: str_nat.simps [of n] of_char_digit_char)
  qed
qed

lemma str_nat_inject: "str_nat m = str_nat n \<Longrightarrow> m = n"
  by (metis str_nat_value)

lemma candidate_inject: "candidate d j = candidate d k \<Longrightarrow> j = k"
  by (auto simp: candidate_def split: prod.splits dest: str_nat_inject)

lemma finite_taken_candidates: "finite {k. path_exists fs (candidate d k)}"
proof -
  have "inj (candidate d)"
    by (rule injI) (rule candidate_inject)
  then have "finite (candidate d -` (insert [] (fst ` set fs)))"
    by (intro finite_vimageI) simp_all
  moreover have "{k. path_exists fs (candidate d k)} \<subseteq> candidate d -` (insert [] (fst ` set fs))"
    by (auto simp: path_exists_def node_at_def dest: map_of_SomeD split: if_splits)
       (metis fst_conv image_eqI map_of_SomeD not_None_eq)
  ultimately show ?thesis
    by (rule rev_finite_subset)
qed

function conflict_loop :: "fs \<Rightarrow> path \<Rightarrow> nat \<Rightarrow> path \<Rightarrow> path" where
  "conflict_loop fs destination0 counter destination =
     (if path_exists fs destination
      then conflict_loop fs destination0 (Suc counter) (candidate destination0 counter)
      else destination)"
  by pat_completeness auto

termination
proof (relation "measure (\<lambda>(fs, d0, counter, d).
         card {k. counter \<le> k \<and> path_exists fs (candidate d0 k)}
         + (if path_exists fs d then 1 else 0))")
  show "wf (measure (\<lambda>(fs, d0, counter, d).
         card {k. counter \<le> k \<and> path_exists fs (candidate d0 k)}
         + (if path_exists fs d then 1 else 0)))"
    by simp
next
  fix fs :: fs and d0 d :: path and counter :: nat
  assume ex: "path_exists fs d"
  let ?A = "{k. Suc counter \<le> k \<and> path_exists fs (candidate d0 k)}"
  let ?B = "{k. counter \<le> k \<and> path_exists fs (candidate d0 k)}"
  have fin: "finite ?A"
    by (rule rev_finite_subset [OF finite_taken_candidates [of fs d0]]) auto
  have "card ?A + (if path_exists fs (candidate d0 counter) then 1 else 0) = card ?B"
  proof (cases "path_exists fs (candidate d0 counter)")
    case True
    then have "?B = insert counter ?A"
      by (auto simp: le_Suc_eq)
    then show ?thesis using True fin by simp
  next
    case False
    then have "?B = ?A"
      by (auto simp: Suc_le_eq order_le_less)
    then show ?thesis using False by simp
  qed
  then show "((fs, d0, Suc counter, candidate d0 counter), (fs, d0, counter, d))
      \<in> measure (\<lambda>(fs, d0, counter, d).
         card {k. counter \<le> k \<and> path_exists fs (candidate d0 k)}
         + (if path_exists fs d then 1 else 0))"
    using ex by simp
qed

declare conflict_loop.simps [simp del]

text \<open>
  The paths given to \<open>move_file\<close> are Python strings, absolute or relative to the working
  directory of the process, which a relative name carries with it here. The empty
  string is the relative name without components; it names nothing, and it is the
  \<open>os.path.dirname\<close> of a bare file name, on which \<open>os.makedirs\<close> raises
  \<open>FileNotFoundError\<close>.
\<close>

datatype pathname = Abs path | Rel path path

fun resolve :: "pathname \<Rightarrow> path" where
  "resolve (Abs p) = p"
| "resolve (Rel cwd p) = cwd @ p"

fun blank :: "pathname \<Rightarrow> bool" where
  "blank (Abs p) = False"
| "blank (Rel cwd p) = (p = [])"

fun dirname :: "pathname \<Rightarrow> pathname" where
  "dirname (Abs p) = Abs (butlast p)"
| "dirname (Rel cwd p) = Rel cwd (butlast p)"

definition is_empty_name :: "fs \<Rightarrow> pathname \<Rightarrow> exn + bool" where
  "is_empty_name fs name = (if blank name then Inr False else is_empty fs (resolve name))"

definition makedirs_name :: "pathname \<Rightarrow> fs \<Rightarrow> (exn + unit) \<times> fs" where
  "makedirs_name name fs =
     (if blank name then (Inl FileNotFoundError, fs) else makedirs (resolve name) fs)"

definition shutil_move_name :: "pathname \<Rightarrow> path \<Rightarrow> fs \<Rightarrow> (exn + unit) \<times> fs" where
  "shutil_move_name src dst fs =
     (if blank src then (Inl FileNotFoundError, fs) else shutil_move (resolve src) dst fs)"

text \<open>
  \<open>move_file\<close>. Every exception is caught and gives false. Where the conflict loop is
  reached the destination has a directory part, so the loop and the move work on the
  resolved destination.
\<close>

definition move_file :: "pathname \<Rightarrow> pathname \<Rightarrow> fs \<Rightarrow> bool \<times> fs" where
  "move_file source destination fs =
     (case is_empty_name fs source of
        Inl e \<Rightarrow> (False, fs)
      | Inr True \<Rightarrow> (False, fs)
      | Inr False \<Rightarrow>
          (case makedirs_name (dirname destination) fs of
             (Inl e, fs1) \<Rightarrow> (False, fs1)
           | (Inr u, fs1) \<Rightarrow>
               (case shutil_move_name source
                       (conflict_loop fs1 (resolve destination) 1 (resolve destination)) fs1 of
                  (Inl e, fs2) \<Rightarrow> (False, fs2)
                | (Inr u, fs2) \<Rightarrow> (True, fs2))))"

text \<open>
  \<open>move_files\<close>. The body of the inner loop for one file, the removal of a directory
  that lists as empty (every exception of the \<open>try\<close> is logged and dropped), and the
  walk; the paths that \<open>os.path.join\<close> builds from the folder have a directory part.
  \<open>os.walk\<close> is top-down: it scans a directory, hands its files to the loop body
  and only then descends into the subdirectories that the scan has seen; a path that is
  no directory when its turn comes is skipped. The walk is given fuel, one unit for
  every directory taken from the stack.
\<close>

definition organize_file :: "path \<Rightarrow> path \<Rightarrow> string \<Rightarrow> fs \<Rightarrow> fs" where
  "organize_file folder_path root file fs =
     (let source_path = root @ [file]
      in case delete_if_empty source_path fs of
           (True, fs1) \<Rightarrow> fs1
         | (False, fs1) \<Rightarrow>
             (let file_ext = lower (suffix_of file);
                  dest_path = folder_path @ [stem_of file @ file_ext]
              in snd (move_file (Abs source_path) (Abs dest_path) fs1)))"

fun organize_files :: "path \<Rightarrow> path \<Rightarrow> string list \<Rightarrow> fs \<Rightarrow> fs" where
  "organize_files folder_path root [] fs = fs"
| "organize_files folder_path root (file # files) fs =
     organize_files folder_path root files (organize_file folder_path root file fs)"

definition remove_empty_dir :: "path \<Rightarrow> fs \<Rightarrow> fs" where
  "remove_empty_dir root fs =
     (if is_dir fs root \<and> listdir fs root = [] then snd (os_rmdir root fs) else fs)"

fun walk_organize :: "nat \<Rightarrow> path \<Rightarrow> path list \<Rightarrow> fs \<Rightarrow> fs option" where
  "walk_organize n folder_path [] fs = Some fs"
| "walk_organize 0 folder_path (root # stack) fs = None"
| "walk_organize (Suc n) folder_path (root # stack) fs =
     (if \<not> is_dir fs root then walk_organize n folder_path stack fs
      else let files = list_files fs root;
               dirs = list_dirs fs root;
               fs1 = remove_empty_dir root (organize_files folder_path root files fs)
           in walk_organize n folder_path (map (\<lambda>d. root @ [d]) dirs @ stack) fs1)"

definition move_files :: "nat \<Rightarrow> path \<Rightarrow> fs \<Rightarrow> fs option" where
  "move_files n folder_path fs =
     (if \<not> path_exists fs folder_path then Some fs
      else walk_organize n folder_path [folder_path] fs)"

text \<open>
  \<open>extract_files_recursive\<close>, after the loop over the files of one directory and the
  walk of the destination, which take the recursive call as the argument \<open>recurse\<close>.
  A run either returns a result or raises, and leaves a filesystem; \<open>None\<close> is a run
  that has not returned within its fuel, which bounds the depth of the calls and the
  directories of each walk. An exception of a nested call is caught nowhere and ends
  the run.
\<close>

type_synonym 'a run = "((exn + 'a) \<times> fs) option"

fun scan_files ::
  "(path \<Rightarrow> path \<Rightarrow> fs \<Rightarrow> bool run) \<Rightarrow> probe \<Rightarrow> path \<Rightarrow> string list \<Rightarrow> fs \<Rightarrow> unit run"
where
  "scan_files recurse pr root [] fs = Some (Inr (), fs)"
| "scan_files recurse pr root (file # files) fs =
     (let source = root @ [file]
      in if is_archive pr fs source
         then (case recurse source root fs of
                 None \<Rightarrow> None
               | Some (Inl e, fs1) \<Rightarrow> Some (Inl e, fs1)
               | Some (Inr b, fs1) \<Rightarrow> scan_files recurse pr root files fs1)
         else scan_files recurse pr root files fs)"

fun walk_extract ::
  "(path \<Rightarrow> path \<Rightarrow> fs \<Rightarrow> bool run) \<Rightarrow> probe \<Rightarrow> nat \<Rightarrow> path list \<Rightarrow> fs \<Rightarrow> unit run"
where
  "walk_extract recurse pr n [] fs = Some (Inr (), fs)"
| "walk_extract recurse pr 0 (root # stack) fs = None"
| "walk_extract recurse pr (Suc n) (root # stack) fs =
     (if \<not> is_dir fs root then walk_extract recurse pr n stack fs
      else case scan_files recurse pr root (list_files fs root) fs of
             None \<Rightarrow> None
           | Some (Inl e, fs1) \<Rightarrow> Some (Inl e, fs1)
           | Some (Inr u, fs1) \<Rightarrow>
               walk_extract recurse pr n
                 (map (\<lambda>d. root @ [d]) (list_dirs fs root) @ stack) fs1)"

primrec extract_files_recursive :: "probe \<Rightarrow> nat \<Rightarrow> path \<Rightarrow> path \<Rightarrow> fs \<Rightarrow> bool run" where
  "extract_files_recursive pr 0 = (\<lambda>file_path destination fs. None)"
| "extract_files_recursive pr (Suc n) = (\<lambda>file_path destination fs.
     if \<not> path_exists fs file_path then Some (Inr False, fs)
     else if \<not> is_archive pr fs file_path then Some (Inr False, fs)
     else case archive_extract file_path destination fs of
            (Inl e, fs1) \<Rightarrow> Some (Inl e, fs1)
          | (Inr False, fs1) \<Rightarrow> Some (Inr False, fs1)
          | (Inr True, fs1) \<Rightarrow>
              (case walk_extract (extract_files_recursive pr n) pr n [destination] fs1 of
                 None \<Rightarrow> None
               | Some (Inl e, fs2) \<Rightarrow> Some (Inl e, fs2)
               | Some (Inr u, fs2) \<Rightarrow> Some (Inr True, fs2)))"

text \<open>
  \<open>batch_extract\<close>. \<open>executor.map\<close> submits one job for each path; \<open>list(...)\<close> waits for
  the outcomes in input order and raises the exception of the first job that raised,
  and the iterator then cancels the jobs that have not started; the jobs that have
  started run to their end before \<open>batch_extract\<close> leaves the \<open>with\<close> block. A job takes
  its turn on the shared filesystem as a whole; interleavings of the system calls of
  two jobs are not modelled. A schedule lists the jobs that start whatever happens, in
  the order in which they take their turn. The other jobs follow in input order, each
  only while no exception has reached the iterator: an exception is visible to it once
  the job that raised and every job before it in input order have finished. The
  \<open>result()\<close> of a cancelled job raises \<open>CancelledError\<close>.
\<close>

definition started :: "nat list \<Rightarrow> nat \<Rightarrow> nat list" where
  "started sched k = remdups (filter (\<lambda>i. i < k) sched)"

definition pending :: "nat list \<Rightarrow> nat \<Rightarrow> nat list" where
  "pending sched k = filter (\<lambda>i. i \<notin> set (started sched k)) [0..<k]"

fun raise_visible :: "(exn + bool) option list \<Rightarrow> bool" where
  "raise_visible [] = False"
| "raise_visible (None # rs) = False"
| "raise_visible (Some (Inl e) # rs) = True"
| "raise_visible (Some (Inr b) # rs) = raise_visible rs"

fun run_jobs ::
  "probe \<Rightarrow> nat \<Rightarrow> path list \<Rightarrow> path \<Rightarrow> nat list \<Rightarrow> fs
     \<Rightarrow> ((nat \<times> (exn + bool)) list \<times> fs) option" where
  "run_jobs pr n file_paths destination [] fs = Some ([], fs)"
| "run_jobs pr n file_paths destination (i # order) fs =
     (case extract_files_recursive pr n (file_paths ! i) destination fs of
        None \<Rightarrow> None
      | Some (r, fs1) \<Rightarrow>
          (case run_jobs pr n file_paths destination order fs1 of
             None \<Rightarrow> None
           | Some (outs, fs2) \<Rightarrow> Some ((i, r) # outs, fs2)))"

fun run_pending ::
  "probe \<Rightarrow> nat \<Rightarrow> path list \<Rightarrow> path \<Rightarrow> nat list \<Rightarrow> (nat \<times> (exn + bool)) list \<Rightarrow> fs
     \<Rightarrow> ((nat \<times> (exn + bool)) list \<times> fs) option" where
  "run_pending pr n file_paths destination [] outs fs = Some (outs, fs)"
| "run_pending pr n file_paths destination (i # order) outs fs =
     (if raise_visible (map (map_of outs) [0..<length file_paths]) then Some (outs, fs)
      else case extract_files_recursive pr n (file_paths ! i) destination fs of
             None \<Rightarrow> None
           | Some (r, fs1) \<Rightarrow> run_pending pr n file_paths destination order ((i, r) # outs) fs1)"

fun collect :: "(exn + bool) option list \<Rightarrow> exn + bool list" where
  "collect [] = Inr []"
| "collect (None # rs) = Inl CancelledError"
| "collect (Some (Inl e) # rs) = Inl e"
| "collect (Some (Inr b) # rs) = (case collect rs of Inl e \<Rightarrow> Inl e | Inr bs \<Rightarrow> Inr (b # bs))"

definition batch_extract ::
  "probe \<Rightarrow> nat \<Rightarrow> nat list \<Rightarrow> path list \<Rightarrow> path \<Rightarrow> fs
     \<Rightarrow> ((exn + bool list) \<times> fs) option" where
  "batch_extract pr n sched file_paths destination fs =
     (case run_jobs pr n file_paths destination (started sched (length file_paths)) fs of
        None \<Rightarrow> None
      | Some (outs, fs1) \<Rightarrow>
          (case run_pending pr n file_paths destination (pending sched (length file_paths))
                  outs fs1 of
             None \<Rightarrow> None
           | Some (outs', fs2) \<Rightarrow>
               Some (collect (map (map_of outs') [0..<length file_paths]), fs2)))"

section \<open>Chains of nested archives\<close>

text \<open>
  An archive with N levels of nesting, in the words of the spec an "archive containing
  an archive containing an archive": \<open>chain levels leaf\<close> is the name and the contents
  of the outermost archive, whose levels have the given names and formats, each holding
  the next as its only member, the innermost holding the file \<open>leaf\<close>. \<open>chain_ok\<close> says
  that the handler of each level's name reads its format, that the probe recognises
  each level, that no level holds a member of its own name, and that the probe does not
  take the innermost file for an archive.
\<close>

fun chain :: "(string \<times> fmt) list \<Rightarrow> string \<times> blob \<Rightarrow> string \<times> blob" where
  "chain [] leaf = leaf"
| "chain ((name, f) # levels) leaf =
     (name, Packed f [([fst (chain levels leaf)], snd (chain levels leaf))])"


section \<open>Example data\<close>

text \<open>
  Modelled from the spec: a probe that recognises a well-formed archive by its contents
  and every other path by the extension of its name, as the spec's "magic-byte or
  extension based" sniffing does. It is used at concrete inputs only.
\<close>

definition sniff :: probe where
  "sniff name b =
     ((case b of Some (Packed f ms) \<Rightarrow> True | _ \<Rightarrow> False)
      \<or> lower (suffix_of name) \<in> set (map fst SUPPORTED_FORMATS))"

text \<open>
  Three files \<open>a.txt\<close> in three directories, the same after the second one has been
  moved beside the first, a working directory \<open>/d\<close> with \<open>a.txt\<close> and \<open>s/a.txt\<close>, and a
  directory that holds one file.
\<close>

definition three_a_txt :: fs where
  "three_a_txt =
     [([''d''], Dir), ([''d'', ''a.txt''], File (Data 1)),
      ([''s''], Dir), ([''s'', ''a.txt''], File (Data 2)),
      ([''t''], Dir), ([''t'', ''a.txt''], File (Data 3))]"

definition two_a_txt :: fs where
  "two_a_txt =
     [([''d''], Dir), ([''d'', ''a.txt''], File (Data 1)),
      ([''s''], Dir), ([''d'', ''a_1.txt''], File (Data 2)),
      ([''t''], Dir), ([''t'', ''a.txt''], File (Data 3))]"

definition bare_name_tree :: fs where
  "bare_name_tree =
     [([''d''], Dir), ([''d'', ''a.txt''], File (Data 1)), ([''d'', ''s''], Dir),
      ([''d'', ''s'', ''a.txt''], File (Data 2))]"

definition one_file :: fs where
  "one_file = [([''r''], Dir), ([''r'', ''a.txt''], File (Data 3))]"

text \<open>A file beside the name that the conflict loop would try first for it.\<close>

definition a_beside_a_1 :: fs where
  "a_beside_a_1 =
     [([''r''], Dir), ([''r'', ''a.txt''], File (Data 3)), ([''r'', ''a_1.txt''], File (Data 4)),
      ([''r'', ''B.TXT''], File (Data 5))]"

text \<open>
  The scenario of the spec: \<open>photos.zip\<close> holds \<open>inner.tar.gz\<close>, which holds
  \<open>note.txt\<close>; beside it lies a directory whose name ends in \<open>.zip\<close>.
\<close>

definition photos_zip :: blob where
  "photos_zip = Packed Zip [([''inner.tar.gz''], Packed Other [([''note.txt''], Data 5)])]"

definition photos_tree :: fs where
  "photos_tree =
     [([''in''], Dir), ([''in'', ''photos.zip''], File photos_zip),
      ([''in'', ''x.zip''], Dir), ([''out''], Dir)]"

definition photos_done :: fs where
  "photos_done =
     [([''in''], Dir), ([''in'', ''x.zip''], Dir), ([''out''], Dir),
      ([''out'', ''note.txt''], File (Data 5))]"


definition two_archives :: fs where
  "two_archives =
     [([''in''], Dir), ([''in'', ''a.zip''], File (Packed Zip [([''note.txt''], Data 1)])),
      ([''in'', ''b.zip''], File (Packed Zip [([''note.txt''], Data 2)])), ([''out''], Dir)]"

text \<open>A file two directories below the folder to organize.\<close>

definition nested_dirs :: fs where
  "nested_dirs =
     [([''r''], Dir), ([''r'', ''a''], Dir), ([''r'', ''a'', ''b''], Dir),
      ([''r'', ''a'', ''b'', ''f.txt''], File (Data 3))]"

section \<open>Facts about the filesystem operations\<close>

lemma node_at_update:
  "node_at (AList.update p n fs) q = (if q = [] then Some Dir else if q = p then Some n else node_at fs q)"
  by (simp add: node_at_def update_conv')

lemma node_at_delete:
  "node_at (AList.delete p fs) q = (if q = [] then Some Dir else if q = p then None else node_at fs q)"
  by (simp add: node_at_def delete_conv')

lemma node_at_root [simp]: "node_at fs [] = Some Dir"
  by (simp add: node_at_def)

lemma os_mkdir_keeps:
  "os_mkdir p fs = (r, fs') \<Longrightarrow> node_at fs q = Some n \<Longrightarrow> node_at fs' q = Some n"
  by (auto simp: os_mkdir_def node_at_update path_exists_def split: if_splits option.splits node.splits)

lemma makedirs_rev_invariant:
  assumes step: "\<And>p fs r fs'. os_mkdir p fs = (r, fs') \<Longrightarrow> P fs \<Longrightarrow> P fs'"
  shows "makedirs_rev rp fs = (r, fs') \<Longrightarrow> P fs \<Longrightarrow> P fs'"
proof (induction rp arbitrary: r fs')
  case Nil
  then show ?case by simp
next
  case (Cons tail rhead)
  let ?name = "rev (tail # rhead)"
  let ?pre = "if rev rhead \<noteq> [] \<and> \<not> path_exists fs (rev rhead)
              then (case makedirs_rev rhead fs of
                      (Inl FileExistsError, fs') \<Rightarrow> (Inr (), fs')
                    | other \<Rightarrow> other)
              else (Inr (), fs)"
  obtain r0 fs0 where pre: "?pre = (r0, fs0)"
    by (cases ?pre)
  obtain ra fsa where rec: "makedirs_rev rhead fs = (ra, fsa)"
    by (cases "makedirs_rev rhead fs")
  have "P fsa"
    using Cons.IH [OF rec Cons.prems(2)] .
  then have p0: "P fs0"
    using pre rec Cons.prems(2) by (auto split: if_splits sum.splits exn.splits)
  obtain r1 fs1 where mk: "os_mkdir ?name fs0 = (r1, fs1)"
    by (cases "os_mkdir ?name fs0")
  have p1: "P fs1"
    using step [OF mk p0] .
  have "makedirs_rev (tail # rhead) fs =
          (case r0 of Inl e \<Rightarrow> (Inl e, fs0)
           | Inr u \<Rightarrow> (case os_mkdir ?name fs0 of
                         (Inl e, fs2) \<Rightarrow> (if is_dir fs2 ?name then (Inr (), fs2) else (Inl e, fs2))
                       | (Inr u, fs2) \<Rightarrow> (Inr (), fs2)))"
    using pre by (simp only: makedirs_rev.simps Let_def split: prod.splits) simp
  then have "fs' = fs0 \<or> fs' = fs1"
    using Cons.prems(1) mk by (auto split: sum.splits if_splits)
  then show ?case
    using p0 p1 by blast
qed

lemma makedirs_rev_keeps:
  "makedirs_rev rp fs = (r, fs') \<Longrightarrow> node_at fs q = Some n \<Longrightarrow> node_at fs' q = Some n"
  by (rule makedirs_rev_invariant [where P = "\<lambda>fs. node_at fs q = Some n"])
     (rule os_mkdir_keeps)

lemma makedirs_keeps:
  "makedirs p fs = (r, fs') \<Longrightarrow> node_at fs q = Some n \<Longrightarrow> node_at fs' q = Some n"
  unfolding makedirs_def by (rule makedirs_rev_keeps)

lemma write_members_keeps_file:
  "write_members d ms fs = (r, fs') \<Longrightarrow> is_file fs p \<Longrightarrow> is_file fs' p"
proof (induction ms arbitrary: fs)
  case Nil
  then show ?case by simp
next
  case (Cons m ms)
  obtain rel b where m: "m = (rel, b)" by (cases m)
  show ?case
  proof (cases "rel = []")
    case True
    with Cons.prems m show ?thesis by simp
  next
    case False
    obtain r1 fs1 where mk: "makedirs (d @ butlast rel) fs = (r1, fs1)"
      by (cases "makedirs (d @ butlast rel) fs")
    from Cons.prems(2) obtain c where "node_at fs p = Some (File c)"
      by (auto simp: is_file_def split: option.splits node.splits)
    then have f1: "is_file fs1 p"
      using makedirs_keeps [OF mk] by (simp add: is_file_def)
    show ?thesis
    proof (cases r1)
      case (Inl e)
      with Cons.prems m False mk f1 show ?thesis by simp
    next
      case (Inr u)
      show ?thesis
      proof (cases "is_dir fs1 (d @ rel)")
        case True
        with Cons.prems m False mk Inr f1 show ?thesis by simp
      next
        case nd: False
        have "is_file (AList.update (d @ rel) (File b) fs1) p"
          using f1 by (auto simp: is_file_def node_at_update split: option.splits node.splits)
        moreover have "write_members d ms (AList.update (d @ rel) (File b) fs1) = (r, fs')"
          using Cons.prems m False mk Inr nd by simp
        ultimately show ?thesis
          using Cons.IH by blast
      qed
    qed
  qed
qed

lemma decode_keeps_file:
  "decode lib f d fs = (r, fs') \<Longrightarrow> is_file fs p \<Longrightarrow> is_file fs' p"
  by (auto simp: decode_def split: option.splits node.splits blob.splits if_splits
           dest: write_members_keeps_file)

lemma os_remove_file:
  "is_file fs p \<Longrightarrow> os_remove p fs = (Inr (), AList.delete p fs)"
  by (auto simp: os_remove_def is_file_def split: option.splits node.splits)

lemma is_file_nonroot: "is_file fs p \<Longrightarrow> p \<noteq> []"
  by (auto simp: is_file_def node_at_def)

lemma gone_after_delete: "p \<noteq> [] \<Longrightarrow> \<not> path_exists (AList.delete p fs) p"
  by (simp add: path_exists_def node_at_delete)

lemma is_empty_file:
  "contents fs p = Some b \<Longrightarrow> is_empty fs p = Inr (blob_size b = 0)"
  by (auto simp: contents_def is_empty_def getsize_def split: option.splits node.splits)

section \<open>Facts about moving a file\<close>

lemma path_exists_keys: "path_exists fs p \<longleftrightarrow> p = [] \<or> p \<in> fst ` set fs"
  using map_of_eq_None_iff [of fs p] by (auto simp: path_exists_def node_at_def)

lemma wf_entry: "wf_fs fs \<Longrightarrow> (p, n) \<in> set fs \<Longrightarrow> p \<noteq> [] \<and> is_dir fs (butlast p)"
  unfolding wf_fs_def by blast

lemma wf_parent: "wf_fs fs \<Longrightarrow> path_exists fs p \<Longrightarrow> is_dir fs (butlast p)"
proof (cases "p = []")
  case True
  then show ?thesis by (simp add: is_dir_def)
next
  case False
  assume "wf_fs fs" and "path_exists fs p"
  with False obtain n where "(p, n) \<in> set fs"
    by (auto simp: path_exists_keys)
  with \<open>wf_fs fs\<close> show ?thesis
    using wf_entry by blast
qed

lemma is_dir_exists: "is_dir fs p \<Longrightarrow> path_exists fs p"
  by (simp add: is_dir_def path_exists_def)

lemma makedirs_existing_dir:
  assumes "wf_fs fs" and "is_dir fs d"
  shows "makedirs d fs = (Inr (), fs)"
proof (cases "rev d")
  case Nil
  then show ?thesis by (simp add: makedirs_def)
next
  case (Cons tail rhead)
  then have d: "d = rev (tail # rhead)"
    by (metis rev_rev_ident)
  then have "rev rhead = butlast d"
    by simp
  then have "path_exists fs (rev rhead)"
    using wf_parent [OF assms(1) is_dir_exists [OF assms(2)]] by (simp add: is_dir_exists)
  moreover have "os_mkdir d fs = (Inl FileExistsError, fs)"
    using is_dir_exists [OF assms(2)] by (simp add: os_mkdir_def)
  ultimately show ?thesis
    using assms(2) d Cons by (simp add: makedirs_def Let_def)
qed

lemma file_no_children:
  assumes wf: "wf_fs fs" and isf: "is_file fs src"
  shows "p \<in> fst ` set fs \<Longrightarrow> prefix src p \<Longrightarrow> p = src"
proof (induction p rule: rev_induct)
  case Nil
  then show ?case by simp
next
  case (snoc x q)
  show ?case
  proof (rule ccontr)
    assume neq: "q @ [x] \<noteq> src"
    with snoc.prems(2) have pre: "prefix src q"
      by (auto simp: prefix_snoc)
    from snoc.prems(1) obtain n where "(q @ [x], n) \<in> set fs"
      by auto
    then have dirq: "is_dir fs q"
      using wf_entry [OF wf] by fastforce
    have "src \<noteq> []"
      using isf by (rule is_file_nonroot)
    with pre have "q \<noteq> []"
      by auto
    with dirq have "q \<in> fst ` set fs"
      using is_dir_exists path_exists_keys by blast
    then have "q = src"
      using snoc.IH pre by blast
    with dirq isf show False
      by (simp add: is_dir_def is_file_def)
  qed
qed

lemma map_of_rename_key:
  assumes "dst \<notin> fst ` set al" and "src \<noteq> dst"
  shows "map_of (map (\<lambda>(p, n). (if p = src then dst else p, n)) al) q
           = (if q = dst then map_of al src else if q = src then None else map_of al q)"
  using assms(1)
proof (induction al arbitrary: q)
  case Nil
  then show ?case by simp
next
  case (Cons e al)
  obtain p n where e: "e = (p, n)" by (cases e)
  from Cons.prems have "dst \<notin> fst ` set al" and "p \<noteq> dst"
    using e by auto
  with Cons.IH show ?case
    using e assms(2) by simp
qed

lemma rename_tree_file:
  assumes wf: "wf_fs fs" and isf: "is_file fs src"
  shows "rename_tree src dst fs = map (\<lambda>(p, n). (if p = src then dst else p, n)) fs"
  unfolding rename_tree_def
proof (rule map_cong [OF refl])
  fix e assume e: "e \<in> set fs"
  obtain p n where pn: "e = (p, n)" by (cases e)
  have "p \<in> fst ` set fs"
    using e pn by force
  then have "prefix src p \<longleftrightarrow> p = src"
    using file_no_children [OF wf isf, of p] by auto
  then show "(case e of (p, n) \<Rightarrow> (if prefix src p then dst @ drop (length src) p else p, n))
      = (case e of (p, n) \<Rightarrow> (if p = src then dst else p, n))"
    using pn by auto
qed

lemma node_at_rename_file:
  assumes wf: "wf_fs fs" and isf: "is_file fs src" and free: "\<not> path_exists fs dst"
  shows "node_at (rename_tree src dst fs) q
           = (if q = dst then node_at fs src else if q = src then None else node_at fs q)"
proof -
  have d: "dst \<noteq> [] \<and> dst \<notin> fst ` set fs"
    using free by (simp add: path_exists_keys)
  have s: "src \<noteq> []"
    using isf by (rule is_file_nonroot)
  have sd: "src \<noteq> dst"
    using isf free by (auto simp: is_file_def path_exists_def)
  show ?thesis
    using d s sd
    by (auto simp: rename_tree_file [OF wf isf] node_at_def map_of_rename_key)
qed

lemma conflict_loop_result:
  "path_exists fs x \<Longrightarrow>
     \<exists>k\<ge>c. conflict_loop fs d c x = candidate d k
        \<and> \<not> path_exists fs (candidate d k)
        \<and> (\<forall>j. c \<le> j \<and> j < k \<longrightarrow> path_exists fs (candidate d j))"
proof (induction fs d c x rule: conflict_loop.induct)
  case (1 fs d c x)
  show ?case
  proof (cases "path_exists fs (candidate d c)")
    case True
    from "1.IH" [OF "1.prems" True] obtain k where k: "Suc c \<le> k"
      "conflict_loop fs d (Suc c) (candidate d c) = candidate d k"
      "\<not> path_exists fs (candidate d k)"
      "\<forall>j. Suc c \<le> j \<and> j < k \<longrightarrow> path_exists fs (candidate d j)"
      by blast
    have "\<forall>j. c \<le> j \<and> j < k \<longrightarrow> path_exists fs (candidate d j)"
    proof (intro allI impI)
      fix j assume j: "c \<le> j \<and> j < k"
      show "path_exists fs (candidate d j)"
      proof (cases "j = c")
        case True
        with \<open>path_exists fs (candidate d c)\<close> show ?thesis by simp
      next
        case False
        with j have "Suc c \<le> j \<and> j < k" by simp
        with k(4) show ?thesis by blast
      qed
    qed
    moreover have "conflict_loop fs d c x = candidate d k"
      using "1.prems" k(2) by (simp add: conflict_loop.simps [of fs d c x])
    ultimately show ?thesis
      using k(1,3) by (intro exI [of _ k]) simp
  next
    case False
    then have "conflict_loop fs d c x = candidate d c"
      using "1.prems"
      by (simp add: conflict_loop.simps [of fs d c x] conflict_loop.simps [of fs d "Suc c"])
    then show ?thesis
      using False by (intro exI [of _ c]) auto
  qed
qed

lemma butlast_candidate: "butlast (candidate d k) = butlast d"
  by (simp add: candidate_def split: prod.splits)

lemma shutil_move_file:
  assumes wf: "wf_fs fs" and isf: "is_file fs src" and free: "\<not> path_exists fs dst"
      and par: "is_dir fs (butlast dst)"
  shows "shutil_move src dst fs = (Inr (), rename_tree src dst fs)"
proof -
  have s: "src \<noteq> []"
    using isf by (rule is_file_nonroot)
  have nd: "\<not> is_dir fs dst"
    using free is_dir_exists by blast
  have sd: "dst \<noteq> src"
    using isf free by (auto simp: is_file_def path_exists_def)
  obtain c where c: "node_at fs src = Some (File c)"
    using isf by (auto simp: is_file_def split: option.splits node.splits)
  have "dst \<notin> fst ` set fs"
    using free by (simp add: path_exists_keys)
  then have del: "AList.delete dst fs = fs"
    by simp
  show ?thesis
    using s nd sd c par free del by (simp add: shutil_move_def Let_def)
qed

lemma resolve_dirname: "\<not> blank (dirname name) \<Longrightarrow> resolve (dirname name) = butlast (resolve name)"
  by (cases name) (auto simp: butlast_append)

lemma move_file_onto_existing:
  assumes wf: "wf_fs fs" and src: "contents fs (resolve source) = Some b"
      and nb: "\<not> blank source" and ne: "blob_size b \<noteq> 0"
      and ex: "path_exists fs (resolve destination)" and dp: "\<not> blank (dirname destination)"
  shows "\<exists>k\<ge>1. \<exists>fs'. move_file source destination fs = (True, fs')
           \<and> (\<forall>j. 1 \<le> j \<and> j < k \<longrightarrow> path_exists fs (candidate (resolve destination) j))
           \<and> \<not> path_exists fs (candidate (resolve destination) k)
           \<and> (\<forall>q. node_at fs' q =
                 (if q = candidate (resolve destination) k then Some (File b)
                  else if q = resolve source then None else node_at fs q))"
proof -
  let ?s = "resolve source" and ?d = "resolve destination"
  have isf: "is_file fs ?s" and at: "node_at fs ?s = Some (File b)"
    using src by (auto simp: contents_def is_file_def split: option.splits node.splits)
  have emp: "is_empty_name fs source = Inr False"
    using src ne nb by (simp add: is_empty_name_def is_empty_file)
  have par: "is_dir fs (butlast ?d)"
    using wf ex by (rule wf_parent)
  have mk: "makedirs_name (dirname destination) fs = (Inr (), fs)"
    using wf par dp by (simp add: makedirs_name_def resolve_dirname makedirs_existing_dir)
  from conflict_loop_result [OF ex, of 1 ?d] obtain k where k: "1 \<le> k"
    "conflict_loop fs ?d 1 ?d = candidate ?d k"
    "\<not> path_exists fs (candidate ?d k)"
    "\<forall>j. 1 \<le> j \<and> j < k \<longrightarrow> path_exists fs (candidate ?d j)"
    by blast
  have "shutil_move ?s (candidate ?d k) fs = (Inr (), rename_tree ?s (candidate ?d k) fs)"
    using wf isf k(3) par by (intro shutil_move_file) (simp_all add: butlast_candidate)
  then have mv: "shutil_move_name source (candidate ?d k) fs
                   = (Inr (), rename_tree ?s (candidate ?d k) fs)"
    using nb by (simp add: shutil_move_name_def)
  have "move_file source destination fs = (True, rename_tree ?s (candidate ?d k) fs)"
    using emp mk k(2) mv by (simp add: move_file_def)
  moreover have "\<forall>q. node_at (rename_tree ?s (candidate ?d k) fs) q =
                 (if q = candidate ?d k then Some (File b)
                  else if q = ?s then None else node_at fs q)"
    using node_at_rename_file [OF wf isf k(3)] at by simp
  ultimately show ?thesis
    using k(1,3,4) by blast
qed

section \<open>ArchiveHandler.extract on empty and non-empty input\<close>

text \<open>
  Claim C4 says that the extractor deletes a zero-length input file and reports a no-op
  success. At the zero-length file \<open>/e.zip\<close> the code returns false and the file is
  still there.
\<close>

theorem empty_input_kept_and_false:
  "archive_extract [''e.zip''] [''out''] [([''e.zip''], File (Data 0))]
     = (Inr False, [([''e.zip''], File (Data 0))])
   \<and> path_exists [([''e.zip''], File (Data 0))] [''e.zip'']"
  by code_simp

text \<open>
  Claim C4, amended: a zero-length input file is never handed to the codec;
  \<open>ArchiveHandler.extract\<close> returns false at once and leaves the filesystem, the empty file
  included, as it is, and \<open>extract_files_recursive\<close> on it returns false without decoding
  or scanning anything.
\<close>

theorem empty_input_left_alone:
  assumes "is_empty fs file_path = Inr True"
  shows "archive_extract file_path destination fs = (Inr False, fs)
         \<and> extract_files_recursive pr (Suc n) file_path destination fs = Some (Inr False, fs)"
  using assms by (simp add: archive_extract_def)


theorem empty_input_left_alone_witness:
  "is_empty [([''e.zip''], File (Data 0))] [''e.zip''] = Inr True
   \<and> archive_extract [''e.zip''] [''out''] [([''e.zip''], File (Data 0))]
       = (Inr False, [([''e.zip''], File (Data 0))])
   \<and> extract_files_recursive sniff (Suc 0) [''e.zip''] [''out''] [([''e.zip''], File (Data 0))]
       = Some (Inr False, [([''e.zip''], File (Data 0))])"
proof -
  have h: "is_empty [([''e.zip''], File (Data 0))] [''e.zip''] = Inr True"
    by code_simp
  show ?thesis
    using h empty_input_left_alone [OF h, of "[''out'']" sniff 0] by simp
qed

lemma write_members_keeps_contents:
  "write_members d ms fs = (Inr (), fs') \<Longrightarrow> contents fs (d @ rel) = Some c
     \<Longrightarrow> rel \<notin> fst ` set ms \<Longrightarrow> contents fs' (d @ rel) = Some c"
proof (induction ms arbitrary: fs)
  case Nil
  then show ?case by simp
next
  case (Cons m ms)
  obtain rel0 b0 where m: "m = (rel0, b0)" by (cases m)
  from Cons.prems(1) m obtain fs1 where
    mk: "makedirs (d @ butlast rel0) fs = (Inr (), fs1)" and
    rest: "write_members d ms (AList.update (d @ rel0) (File b0) fs1) = (Inr (), fs')"
    by (auto split: if_splits prod.splits sum.splits)
  have "node_at fs (d @ rel) = Some (File c)"
    using Cons.prems(2) by (auto simp: contents_def split: option.splits node.splits)
  then have "node_at fs1 (d @ rel) = Some (File c)"
    using makedirs_keeps [OF mk] by simp
  moreover have "rel \<noteq> rel0" and "rel \<notin> fst ` set ms"
    using Cons.prems(3) m by auto
  ultimately have "contents (AList.update (d @ rel0) (File b0) fs1) (d @ rel) = Some c"
    by (cases "d @ rel = []") (simp_all add: contents_def node_at_update)
  from Cons.IH [OF rest this \<open>rel \<notin> fst ` set ms\<close>] show ?case .
qed

lemma write_members_written:
  "write_members d ms fs = (Inr (), fs') \<Longrightarrow> map_of (rev ms) rel = Some c
     \<Longrightarrow> contents fs' (d @ rel) = Some c"
proof (induction ms arbitrary: fs)
  case Nil
  then show ?case by simp
next
  case (Cons m ms)
  obtain rel0 b0 where m: "m = (rel0, b0)" by (cases m)
  from Cons.prems(1) m obtain fs1 where
    ne: "rel0 \<noteq> []" and
    mk: "makedirs (d @ butlast rel0) fs = (Inr (), fs1)" and
    rest: "write_members d ms (AList.update (d @ rel0) (File b0) fs1) = (Inr (), fs')"
    by (auto split: if_splits prod.splits sum.splits)
  show ?case
  proof (cases "map_of (rev ms) rel")
    case (Some c')
    then have "c' = c"
      using Cons.prems(2) m by (simp add: map_add_def)
    with Some Cons.IH [OF rest] show ?thesis by simp
  next
    case None
    then have eq: "rel = rel0" "c = b0"
      using Cons.prems(2) m by (auto simp: map_add_def split: if_splits)
    have "rel0 \<notin> fst ` set ms"
      using None eq by (simp add: map_of_eq_None_iff)
    moreover have "d @ rel0 \<noteq> []"
      using ne by simp
    then have "contents (AList.update (d @ rel0) (File b0) fs1) (d @ rel0) = Some b0"
      by (simp add: contents_def node_at_update)
    ultimately show ?thesis
      using write_members_keeps_contents [OF rest] eq by simp
  qed
qed

lemma decode_written:
  assumes "decode lib p d fs = (Inr (), fs1)" and "contents fs p = Some b"
  shows "\<exists>f ms. b = Packed f ms \<and> reads lib f
           \<and> (\<forall>rel c. map_of (rev ms) rel = Some c \<longrightarrow> contents fs1 (d @ rel) = Some c)"
proof -
  have at: "node_at fs p = Some (File b)"
    using assms(2) by (auto simp: contents_def split: option.splits node.splits)
  show ?thesis
  proof (cases b)
    case (Data n)
    with at assms(1) show ?thesis by (simp add: decode_def)
  next
    case (Packed f ms)
    with at assms(1) have "reads lib f" and "write_members d ms fs = (Inr (), fs1)"
      by (auto simp: decode_def split: if_splits)
    with Packed show ?thesis
      using write_members_written by blast
  qed
qed

text \<open>
  Claim C5: \<open>ArchiveHandler.extract\<close> on a non-empty archive file runs the decode step of
  the handler for the file's extension and leaves the filesystem that this step has
  produced, without the archive file, whether the step succeeded or failed; no exception
  leaves the call, and the result is true exactly when the decode step succeeded. After
  a successful step the file was an archive, and every member lies below the destination
  with its contents (for a member name that occurs twice, those of the last), the path
  of the archive file itself apart.
\<close>

theorem extract_removes_archive:
  assumes "contents fs file_path = Some b" and "blob_size b \<noteq> 0"
  shows "\<exists>r fs1. decode (handler (lower (suffix_of (name_of file_path)))) file_path destination fs
                   = (r, fs1)
           \<and> archive_extract file_path destination fs
               = (Inr (r = Inr ()), AList.delete file_path fs1)
           \<and> \<not> path_exists (AList.delete file_path fs1) file_path
           \<and> (r = Inr () \<longrightarrow>
                (\<exists>f ms. b = Packed f ms
                   \<and> (\<forall>rel c. map_of (rev ms) rel = Some c \<and> destination @ rel \<noteq> file_path
                         \<longrightarrow> contents (AList.delete file_path fs1) (destination @ rel) = Some c)))"
proof -
  let ?lib = "handler (lower (suffix_of (name_of file_path)))"
  obtain r fs1 where dec: "decode ?lib file_path destination fs = (r, fs1)"
    by (cases "decode ?lib file_path destination fs")
  have file0: "is_file fs file_path"
    using assms(1) by (auto simp: contents_def is_file_def split: option.splits node.splits)
  have file1: "is_file fs1 file_path"
    using decode_keeps_file [OF dec file0] .
  have nonroot: "file_path \<noteq> []"
    using file0 by (rule is_file_nonroot)
  have ex1: "path_exists fs1 file_path"
    using file1 by (auto simp: is_file_def path_exists_def split: option.splits)
  have emp: "is_empty fs file_path = Inr False"
    using assms by (simp add: is_empty_file)
  have gone: "\<not> path_exists (AList.delete file_path fs1) file_path"
    using nonroot by (rule gone_after_delete)
  have res: "archive_extract file_path destination fs = (Inr (r = Inr ()), AList.delete file_path fs1)"
  proof (cases r)
    case (Inl e)
    then show ?thesis
      using emp dec ex1 os_remove_file [OF file1] by (simp add: archive_extract_def)
  next
    case (Inr u)
    then show ?thesis
      using emp dec os_remove_file [OF file1] by (simp add: archive_extract_def)
  qed
  have lives: "\<exists>f ms. b = Packed f ms
                   \<and> (\<forall>rel c. map_of (rev ms) rel = Some c \<and> destination @ rel \<noteq> file_path
                         \<longrightarrow> contents (AList.delete file_path fs1) (destination @ rel) = Some c)"
    if "r = Inr ()"
  proof -
    from decode_written [OF dec [unfolded that] assms(1)] obtain f ms where
      b: "b = Packed f ms" and
      w: "\<And>rel c. map_of (rev ms) rel = Some c \<Longrightarrow> contents fs1 (destination @ rel) = Some c"
      by blast
    have "contents (AList.delete file_path fs1) (destination @ rel) = Some c"
      if "map_of (rev ms) rel = Some c" and "destination @ rel \<noteq> file_path" for rel c
      using w [OF that(1)] that(2)
      by (cases "destination @ rel = []") (simp_all add: contents_def node_at_delete)
    with b show ?thesis by blast
  qed
  show ?thesis
    using dec res gone lives by blast
qed

theorem extract_removes_archive_witness:
  "contents two_archives [''in'', ''a.zip''] = Some (Packed Zip [([''note.txt''], Data 1)])
   \<and> blob_size (Packed Zip [([''note.txt''], Data 1)]) \<noteq> 0
   \<and> archive_extract [''in'', ''a.zip''] [''out''] two_archives
       = (Inr True,
          [([''in''], Dir), ([''in'', ''b.zip''], File (Packed Zip [([''note.txt''], Data 2)])),
           ([''out''], Dir), ([''out'', ''note.txt''], File (Data 1))])
   \<and> (\<exists>r fs1. decode (handler (lower (suffix_of (name_of [''in'', ''a.zip''])))) [''in'', ''a.zip'']
                  [''out''] two_archives = (r, fs1)
           \<and> archive_extract [''in'', ''a.zip''] [''out''] two_archives
               = (Inr (r = Inr ()), AList.delete [''in'', ''a.zip''] fs1)
           \<and> \<not> path_exists (AList.delete [''in'', ''a.zip''] fs1) [''in'', ''a.zip'']
           \<and> (r = Inr () \<longrightarrow>
                (\<exists>f ms. Packed Zip [([''note.txt''], Data 1)] = Packed f ms
                   \<and> (\<forall>rel c. map_of (rev ms) rel = Some c \<and> [''out''] @ rel \<noteq> [''in'', ''a.zip'']
                         \<longrightarrow> contents (AList.delete [''in'', ''a.zip''] fs1) ([''out''] @ rel)
                               = Some c))))"
proof -
  have h1: "contents two_archives [''in'', ''a.zip''] = Some (Packed Zip [([''note.txt''], Data 1)])"
    by code_simp
  have h2: "blob_size (Packed Zip [([''note.txt''], Data 1)]) \<noteq> 0"
    by simp
  have h3: "archive_extract [''in'', ''a.zip''] [''out''] two_archives
       = (Inr True,
          [([''in''], Dir), ([''in'', ''b.zip''], File (Packed Zip [([''note.txt''], Data 2)])),
           ([''out''], Dir), ([''out'', ''note.txt''], File (Data 1))])"
    by code_simp
  show ?thesis
    by (rule conjI [OF h1 conjI [OF h2 conjI [OF h3
          extract_removes_archive [OF h1 h2, of "[''out'']"]]]])
qed

section \<open>move_file and name conflicts\<close>

lemma str_nat_1_2: "str_nat (Suc 0) = ''1''" "str_nat 2 = ''2''"
  by code_simp+

lemma candidate_a_txt:
  "candidate (d @ [''a.txt'']) 1 = d @ [''a_1.txt'']"
  "candidate (d @ [''a.txt'']) 2 = d @ [''a_2.txt'']"
  by (simp_all add: candidate_def name_of_def splitext_def after_dot_def has_dot_def
        str_nat_1_2 Let_def)

lemma split_last_dot:
  assumes "has_dot name"
  shows "\<exists>pre. name = pre @ CHR ''.'' # after_dot name"
proof -
  let ?P = "\<lambda>c. c \<noteq> CHR ''.''"
  have "dropWhile ?P (rev name) \<noteq> []"
    using assms by (simp add: has_dot_def)
  then obtain c rest where dw: "dropWhile ?P (rev name) = c # rest"
    by (cases "dropWhile ?P (rev name)") auto
  then have "c = CHR ''.''"
    using hd_dropWhile [of ?P "rev name"] by auto
  have "rev name = takeWhile ?P (rev name) @ dropWhile ?P (rev name)"
    by simp
  then have "rev (rev name) = rev (takeWhile ?P (rev name) @ c # rest)"
    using dw by simp
  then have "name = rev rest @ CHR ''.'' # after_dot name"
    using \<open>c = CHR ''.''\<close> by (simp add: after_dot_def)
  then show ?thesis ..
qed

lemma stem_suffix: "stem_of name @ suffix_of name = name"
proof (cases "suffix_of name = []")
  case True
  then show ?thesis by (simp add: stem_of_def)
next
  case False
  then have hd: "has_dot name" and suf: "suffix_of name = CHR ''.'' # after_dot name"
    by (auto simp: suffix_of_def split: if_splits)
  from split_last_dot [OF hd] obtain pre where pre: "name = pre @ CHR ''.'' # after_dot name"
    by blast
  have "length name = length pre + Suc (length (after_dot name))"
    by (subst pre) simp
  then have "take (length name - length (suffix_of name)) name = pre"
    using suf by (subst (2) pre) simp
  then show ?thesis
    using suf pre by (simp add: stem_of_def)
qed


text \<open>
  A move of a non-empty file onto an existing destination that has a directory part
  succeeds under the first name \<open>base_k.ext\<close>, \<open>k = 1, 2, \<dots>\<close>, that is free: every name
  tried before it is taken, the file arrives there with its contents, it is gone from
  its source, and every other path is as it was. For \<open>a.txt\<close> the first two names are
  \<open>a_1.txt\<close> and \<open>a_2.txt\<close>.
\<close>

lemma move_file_conflict:
  assumes "wf_fs fs" and "contents fs (resolve source) = Some b" and "\<not> blank source"
      and "blob_size b \<noteq> 0" and "path_exists fs (resolve destination)"
      and "\<not> blank (dirname destination)"
  shows "(\<exists>k\<ge>1. \<exists>fs'. move_file source destination fs = (True, fs')
           \<and> (\<forall>j. 1 \<le> j \<and> j < k \<longrightarrow> path_exists fs (candidate (resolve destination) j))
           \<and> \<not> path_exists fs (candidate (resolve destination) k)
           \<and> (\<forall>q. node_at fs' q =
                 (if q = candidate (resolve destination) k then Some (File b)
                  else if q = resolve source then None else node_at fs q)))
         \<and> candidate (d @ [''a.txt'']) 1 = d @ [''a_1.txt'']
         \<and> candidate (d @ [''a.txt'']) 2 = d @ [''a_2.txt'']"
  using move_file_onto_existing [OF assms] candidate_a_txt by blast

lemma second_and_third_a_txt:
  "move_file (Abs [''s'', ''a.txt'']) (Abs [''d'', ''a.txt'']) three_a_txt = (True, two_a_txt)"
  "move_file (Abs [''t'', ''a.txt'']) (Abs [''d'', ''a.txt'']) two_a_txt =
     (True, [([''d''], Dir), ([''d'', ''a.txt''], File (Data 1)),
             ([''s''], Dir), ([''d'', ''a_1.txt''], File (Data 2)),
             ([''t''], Dir), ([''d'', ''a_2.txt''], File (Data 3))])"
  by code_simp+

text \<open>
  Claim C6 holds of every destination with a directory part, as the lemmas above show,
  and fails where the destination is a bare file name: in the working directory \<open>/d\<close>,
  which holds \<open>a.txt\<close> and \<open>s/a.txt\<close>, the call \<open>move_file('s/a.txt', 'a.txt')\<close> moves
  nothing and returns false, because \<open>os.makedirs\<close> of the empty directory part raises
  inside the \<open>try\<close>. The same move with the destination written \<open>/d/a.txt\<close> gives
  \<open>/d/a_1.txt\<close>.
\<close>

theorem move_to_bare_name_fails:
  "move_file (Rel [''d''] [''s'', ''a.txt'']) (Rel [''d''] [''a.txt'']) bare_name_tree
     = (False, bare_name_tree)
   \<and> path_exists bare_name_tree (resolve (Rel [''d''] [''a.txt'']))
   \<and> move_file (Rel [''d''] [''s'', ''a.txt'']) (Abs [''d'', ''a.txt'']) bare_name_tree
     = (True, [([''d''], Dir), ([''d'', ''a.txt''], File (Data 1)), ([''d'', ''s''], Dir),
               ([''d'', ''a_1.txt''], File (Data 2))])"
  by code_simp

section \<open>move_files\<close>

lemma listdir_nonempty:
  "node_at fs p = Some n \<Longrightarrow> p \<noteq> [] \<Longrightarrow> listdir fs (butlast p) \<noteq> []"
proof -
  assume "node_at fs p = Some n" and "p \<noteq> []"
  then have "(p, n) \<in> set fs"
    by (auto simp: node_at_def dest: map_of_SomeD)
  with \<open>p \<noteq> []\<close> have "filter (\<lambda>(q, m). q \<noteq> [] \<and> butlast q = butlast p) fs \<noteq> []"
    by (auto simp: filter_empty_conv)
  then show ?thesis
    by (simp add: listdir_def)
qed

lemma delete_if_empty_nonempty:
  "contents fs p = Some b \<Longrightarrow> blob_size b \<noteq> 0 \<Longrightarrow> delete_if_empty p fs = (False, fs)"
  by (auto simp: contents_def delete_if_empty_def getsize_def split: option.splits node.splits)

lemma candidate_nonroot: "candidate d k \<noteq> []"
  by (simp add: candidate_def split: prod.splits)

lemma is_file_contents: "is_file fs p \<longleftrightarrow> (\<exists>b. contents fs p = Some b)"
  by (auto simp: is_file_def contents_def split: option.splits node.splits)

lemma wf_delete_file:
  assumes wf: "wf_fs fs" and isf: "is_file fs p"
  shows "wf_fs (AList.delete p fs)"
proof -
  have "distinct (map fst (AList.delete p fs))"
    using wf by (simp add: wf_fs_def distinct_delete)
  moreover have "q \<noteq> [] \<and> is_dir (AList.delete p fs) (butlast q)"
    if "(q, n) \<in> set (AList.delete p fs)" for q n
  proof -
    from that have "(q, n) \<in> set fs"
      by (auto simp: AList.delete_eq)
    then have q: "q \<noteq> []" and d: "is_dir fs (butlast q)"
      using wf_entry [OF wf] by blast+
    have "butlast q \<noteq> p"
      using d isf by (auto simp: is_dir_def is_file_def)
    with d q show ?thesis
      by (simp add: is_dir_def node_at_delete)
  qed
  ultimately show ?thesis
    unfolding wf_fs_def by blast
qed

lemma wf_rename_file:
  assumes wf: "wf_fs fs" and isf: "is_file fs src" and free: "\<not> path_exists fs dst"
      and par: "is_dir fs (butlast dst)"
  shows "wf_fs (rename_tree src dst fs)"
proof -
  let ?f = "\<lambda>p. if p = src then dst else p"
  have dst: "dst \<noteq> []" and dk: "dst \<notin> fst ` set fs"
    using free by (auto simp: path_exists_keys)
  have eq: "rename_tree src dst fs = map (\<lambda>(p, n). (?f p, n)) fs"
    using wf isf by (rule rename_tree_file)
  have keys: "map fst (rename_tree src dst fs) = map ?f (map fst fs)"
    by (simp add: eq split_def comp_def)
  have "inj_on ?f (set (map fst fs))"
    using dk by (auto simp: inj_on_def)
  moreover have "distinct (map fst fs)"
    using wf by (simp add: wf_fs_def)
  ultimately have "distinct (map ?f (map fst fs))"
    by (subst distinct_map) blast
  then have dist: "distinct (map fst (rename_tree src dst fs))"
    by (simp only: keys)
  have at: "node_at (rename_tree src dst fs) x
              = (if x = dst then node_at fs src else if x = src then None else node_at fs x)" for x
    using wf isf free by (rule node_at_rename_file)
  have keep: "is_dir (rename_tree src dst fs) x" if "is_dir fs x" for x
  proof -
    have "x \<noteq> src"
      using that isf by (auto simp: is_dir_def is_file_def)
    moreover have "x \<noteq> dst"
      using that free is_dir_exists by blast
    ultimately show ?thesis
      using that by (simp add: is_dir_def at)
  qed
  have "q \<noteq> [] \<and> is_dir (rename_tree src dst fs) (butlast q)"
    if "(q, n) \<in> set (rename_tree src dst fs)" for q n
  proof -
    from that obtain p where p: "(p, n) \<in> set fs" and q: "q = ?f p"
      by (auto simp: eq)
    show ?thesis
    proof (cases "p = src")
      case True
      with q dst par keep show ?thesis by simp
    next
      case False
      with q p wf_entry [OF wf] keep show ?thesis by auto
    qed
  qed
  with dist show ?thesis
    unfolding wf_fs_def by blast
qed

lemma conflict_loop_free: "\<not> path_exists fs (conflict_loop fs d c x)"
proof (induction fs d c x rule: conflict_loop.induct)
  case (1 fs d c x)
  then show ?case
    by (simp add: conflict_loop.simps [of fs d c x])
qed

lemma conflict_loop_parent:
  "butlast x = butlast d \<Longrightarrow> butlast (conflict_loop fs d c x) = butlast d"
proof (induction fs d c x rule: conflict_loop.induct)
  case (1 fs d c x)
  then show ?case
    by (simp add: conflict_loop.simps [of fs d c x] butlast_candidate)
qed

lemma organize_file_step:
  assumes wf: "wf_fs s" and dir: "is_dir s folder"
      and src: "is_file s (folder @ [g]) \<or> \<not> path_exists s (folder @ [g])"
  shows "wf_fs (organize_file folder folder g s)"
    and "is_dir (organize_file folder folder g s) folder"
    and "q \<noteq> folder @ [g] \<Longrightarrow> node_at s q \<noteq> None
           \<Longrightarrow> node_at (organize_file folder folder g s) q = node_at s q"
proof -
  let ?src = "folder @ [g]"
  let ?s' = "organize_file folder folder g s"
  have "wf_fs ?s' \<and> is_dir ?s' folder
          \<and> (\<forall>q. q \<noteq> ?src \<longrightarrow> node_at s q \<noteq> None \<longrightarrow> node_at ?s' q = node_at s q)"
  proof (cases "path_exists s ?src")
    case False
    then have none: "node_at s ?src = None"
      by (simp add: path_exists_def)
    then have "?s' = s"
      by (auto simp: organize_file_def delete_if_empty_def getsize_def move_file_def
            is_empty_name_def is_empty_def Let_def split: exn.splits)
    with wf dir show ?thesis by simp
  next
    case True
    with src have isf: "is_file s ?src" by simp
    then obtain b where b: "contents s ?src = Some b"
      by (auto simp: is_file_contents)
    then have at: "node_at s ?src = Some (File b)"
      by (simp add: contents_def split: option.splits node.splits)
    have fne: "folder \<noteq> ?src" by simp
    show ?thesis
    proof (cases "blob_size b = 0")
      case True
      then have "?s' = AList.delete ?src s"
        using at by (simp add: organize_file_def delete_if_empty_def getsize_def os_remove_def)
      moreover have "is_dir (AList.delete ?src s) folder"
        using dir by (auto simp: is_dir_def node_at_delete)
      ultimately show ?thesis
        using wf_delete_file [OF wf isf] by (simp add: node_at_delete)
    next
      case False
      let ?dest = "folder @ [stem_of g @ lower (suffix_of g)]"
      define d' where "d' = conflict_loop s ?dest 1 ?dest"
      have del: "delete_if_empty ?src s = (False, s)"
        using at False by (simp add: delete_if_empty_def getsize_def)
      have emp: "is_empty_name s (Abs ?src) = Inr False"
        using b False by (simp add: is_empty_name_def is_empty_file)
      have mk: "makedirs_name (dirname (Abs ?dest)) s = (Inr (), s)"
        using wf dir by (simp add: makedirs_name_def makedirs_existing_dir)
      have free: "\<not> path_exists s d'"
        unfolding d'_def by (rule conflict_loop_free)
      have par: "butlast d' = folder"
        unfolding d'_def using conflict_loop_parent [of ?dest ?dest s 1] by simp
      have "shutil_move ?src d' s = (Inr (), rename_tree ?src d' s)"
        using wf isf free dir par by (intro shutil_move_file) simp_all
      then have "move_file (Abs ?src) (Abs ?dest) s = (True, rename_tree ?src d' s)"
        using emp mk by (simp add: move_file_def shutil_move_name_def d'_def)
      then have s': "?s' = rename_tree ?src d' s"
        using del by (simp add: organize_file_def)
      have w: "wf_fs (rename_tree ?src d' s)"
        using wf isf free dir par by (intro wf_rename_file) simp_all
      have at': "node_at (rename_tree ?src d' s) x
              = (if x = d' then node_at s ?src else if x = ?src then None else node_at s x)" for x
        using wf isf free by (rule node_at_rename_file)
      have "folder \<noteq> d'"
        using free is_dir_exists [OF dir] by metis
      then have "is_dir (rename_tree ?src d' s) folder"
        using dir fne by (simp add: is_dir_def at')
      moreover have "\<forall>q. q \<noteq> ?src \<longrightarrow> node_at s q \<noteq> None
                      \<longrightarrow> node_at (rename_tree ?src d' s) q = node_at s q"
        using free by (auto simp: at' path_exists_def)
      ultimately show ?thesis
        using w s' by simp
    qed
  qed
  then show "wf_fs ?s'" and "is_dir ?s' folder"
    and "q \<noteq> ?src \<Longrightarrow> node_at s q \<noteq> None \<Longrightarrow> node_at ?s' q = node_at s q"
    by blast+
qed

lemma organize_files_before:
  assumes "wf_fs s" and "is_dir s folder"
      and "\<forall>g \<in> set pre. is_file s (folder @ [g])" and "distinct pre"
      and "h \<notin> set pre" and "node_at s (folder @ [h]) \<noteq> None"
  shows "wf_fs (organize_files folder folder pre s)
         \<and> is_dir (organize_files folder folder pre s) folder
         \<and> node_at (organize_files folder folder pre s) (folder @ [h]) = node_at s (folder @ [h])"
  using assms
proof (induction pre arbitrary: s)
  case Nil
  then show ?case by simp
next
  case (Cons g pre)
  let ?s1 = "organize_file folder folder g s"
  have g: "is_file s (folder @ [g]) \<or> \<not> path_exists s (folder @ [g])"
    using Cons.prems(3) by simp
  note st = organize_file_step [OF Cons.prems(1,2) g]
  have keep: "node_at ?s1 (folder @ [x]) = node_at s (folder @ [x])"
    if "x \<noteq> g" and "node_at s (folder @ [x]) \<noteq> None" for x
    using st(3) [of "folder @ [x]"] that by simp
  have files: "\<forall>x \<in> set pre. is_file ?s1 (folder @ [x])"
  proof
    fix x assume x: "x \<in> set pre"
    then have "x \<noteq> g" using Cons.prems(4) by auto
    moreover have "is_file s (folder @ [x])" using Cons.prems(3) x by simp
    ultimately show "is_file ?s1 (folder @ [x])"
      using keep [of x] by (auto simp: is_file_def split: option.splits)
  qed
  have hg: "h \<noteq> g" and hp: "h \<notin> set pre"
    using Cons.prems(5) by auto
  have h1: "node_at ?s1 (folder @ [h]) = node_at s (folder @ [h])"
    using keep [OF hg Cons.prems(6)] .
  have "wf_fs (organize_files folder folder pre ?s1)
         \<and> is_dir (organize_files folder folder pre ?s1) folder
         \<and> node_at (organize_files folder folder pre ?s1) (folder @ [h]) = node_at ?s1 (folder @ [h])"
    using Cons.IH [OF st(1) st(2) files _ hp] Cons.prems(4,6) h1 by simp
  with h1 show ?case by simp
qed

lemma list_files_member:
  assumes wf: "wf_fs fs"
  shows "g \<in> set (list_files fs d) \<longleftrightarrow> is_file fs (d @ [g])"
proof
  assume "g \<in> set (list_files fs d)"
  then obtain p n where e: "(p, n) \<in> set fs" and p: "p \<noteq> []" "butlast p = d" "n \<noteq> Dir" "g = last p"
    by (auto simp: list_files_def)
  then have "p = d @ [g]"
    by (metis append_butlast_last_id)
  moreover have "map_of fs p = Some n"
    using wf e by (simp add: wf_fs_def)
  ultimately show "is_file fs (d @ [g])"
    using p(3) by (cases n) (auto simp: is_file_def node_at_def)
next
  assume "is_file fs (d @ [g])"
  then obtain b where "node_at fs (d @ [g]) = Some (File b)"
    by (auto simp: is_file_def split: option.splits node.splits)
  then have "(d @ [g], File b) \<in> set fs"
    by (auto simp: node_at_def dest: map_of_SomeD)
  then have "(d @ [g], File b) \<in> set (filter (\<lambda>(p, n). p \<noteq> [] \<and> butlast p = d \<and> n \<noteq> Dir) fs)"
    by simp
  then show "g \<in> set (list_files fs d)"
    unfolding list_files_def by force
qed

lemma list_files_distinct:
  assumes wf: "wf_fs fs"
  shows "distinct (list_files fs d)"
proof -
  let ?es = "filter (\<lambda>(p, n). p \<noteq> [] \<and> butlast p = d \<and> n \<noteq> Dir) fs"
  have dk: "distinct (map fst fs)"
    using wf by (simp add: wf_fs_def)
  then have "distinct (map fst ?es)"
    by (simp add: distinct_map_filter)
  moreover have "inj_on last (set (map fst ?es))"
  proof (rule inj_onI)
    fix p p' assume "p \<in> set (map fst ?es)" and "p' \<in> set (map fst ?es)" and l: "last p = last p'"
    then have "p \<noteq> []" "p' \<noteq> []" "butlast p = butlast p'"
      by auto
    with l show "p = p'"
      by (metis append_butlast_last_id)
  qed
  ultimately have "distinct (map last (map fst ?es))"
    by (subst distinct_map) blast
  moreover have "list_files fs d = map last (map fst ?es)"
    by (simp add: list_files_def split_def comp_def)
  ultimately show ?thesis by simp
qed


lemma organize_files_append:
  "organize_files folder root (xs @ ys) fs
     = organize_files folder root ys (organize_files folder root xs fs)"
  by (induction xs arbitrary: fs) simp_all

text \<open>
  Claim C10 says that \<open>move_files\<close> renames such a file by appending \<open>_1\<close>. Beside a file
  \<open>a_1.txt\<close> the file \<open>a.txt\<close>, non-empty and with a lower-case extension, becomes
  \<open>a_2.txt\<close>: the conflict loop goes on to the first free name.
\<close>

theorem organize_appends_2:
  "move_files 1 [''r''] a_beside_a_1
     = Some [([''r''], Dir), ([''r'', ''a_2.txt''], File (Data 3)),
             ([''r'', ''a_1_1.txt''], File (Data 4)), ([''r'', ''B.txt''], File (Data 5))]
   \<and> contents a_beside_a_1 [''r'', ''a.txt''] = Some (Data 3)
   \<and> lower (suffix_of ''a.txt'') = suffix_of ''a.txt''"
  by code_simp

text \<open>
  Claim C10, amended: when the loop of \<open>move_files\<close> over the files of the folder reaches a
  non-empty file that lies directly in the folder under its normalized name, the file
  is still in place and is its own destination, so the loop body renames it to the first
  free name \<open>base_k.ext\<close>, which is \<open>base_1.ext\<close> when that name is free, and the file is
  no longer at its path; at the end of the loop the file lies under the new name, and
  in a folder without subdirectories that is the whole pass, so a pass over its own
  output is not a no-op.
\<close>

theorem organize_renames_file_in_place:
  assumes "wf_fs fs" and "list_files fs folder_path = pre @ file # post"
      and "contents fs (folder_path @ [file]) = Some b" and "blob_size b \<noteq> 0"
      and "lower (suffix_of file) = suffix_of file"
  shows "\<exists>k\<ge>1. \<exists>s s'. s = organize_files folder_path folder_path pre fs
           \<and> s' = organize_file folder_path folder_path file s
           \<and> contents s (folder_path @ [file]) = Some b
           \<and> (\<forall>j. 1 \<le> j \<and> j < k \<longrightarrow> path_exists s (candidate (folder_path @ [file]) j))
           \<and> \<not> path_exists s (candidate (folder_path @ [file]) k)
           \<and> (\<forall>q. node_at s' q =
                 (if q = candidate (folder_path @ [file]) k then Some (File b)
                  else if q = folder_path @ [file] then None else node_at s q))
           \<and> (k = 1 \<longrightarrow> candidate (folder_path @ [file]) k =
                  folder_path @ [fst (splitext file) @ ''_1'' @ snd (splitext file)])
           \<and> (\<not> path_exists s (candidate (folder_path @ [file]) 1) \<longrightarrow> k = 1)
           \<and> contents (organize_files folder_path folder_path (list_files fs folder_path) fs)
                (candidate (folder_path @ [file]) k) = Some b
           \<and> (list_dirs fs folder_path = [] \<longrightarrow>
                (\<forall>n. move_files (Suc n) folder_path fs
                       = Some (organize_files folder_path folder_path (list_files fs folder_path) fs)))"
proof -
  let ?src = "folder_path @ [file]"
  let ?s = "organize_files folder_path folder_path pre fs"
  let ?s' = "organize_file folder_path folder_path file ?s"
  let ?end = "organize_files folder_path folder_path (list_files fs folder_path) fs"
  note wf = assms(1)
  have ex: "path_exists fs ?src" and at: "node_at fs ?src = Some (File b)"
    using assms(3) by (auto simp: contents_def path_exists_def split: option.splits node.splits)
  have dir: "is_dir fs folder_path"
    using wf_parent [OF wf ex] by simp
  have dist: "distinct (pre @ file # post)"
    using list_files_distinct [OF wf, of folder_path] assms(2) by simp
  have files: "is_file fs (folder_path @ [g])" if "g \<in> set (pre @ file # post)" for g
    using list_files_member [OF wf, of g folder_path] that assms(2) by simp
  have pre: "\<forall>g \<in> set pre. is_file fs (folder_path @ [g])" and dpre: "distinct pre"
    using files dist by simp_all
  have before: "wf_fs ?s \<and> is_dir ?s folder_path
                  \<and> node_at ?s (folder_path @ [h]) = node_at fs (folder_path @ [h])"
    if "h \<in> set (file # post)" for h
  proof -
    have "h \<notin> set pre" using dist that by auto
    moreover have "node_at fs (folder_path @ [h]) \<noteq> None"
      using files [of h] that by (auto simp: is_file_def split: option.splits)
    ultimately show ?thesis
      using organize_files_before [OF wf dir pre dpre] by blast
  qed
  have wfs: "wf_fs ?s" and dirs: "is_dir ?s folder_path"
    and ats: "node_at ?s ?src = Some (File b)"
    using before [of "file"] at by simp_all
  have cs: "contents ?s ?src = Some b"
    using ats by (simp add: contents_def)
  have exs: "path_exists ?s ?src"
    using ats by (simp add: path_exists_def)
  have src': "contents ?s (resolve (Abs ?src)) = Some b" and exs': "path_exists ?s (resolve (Abs ?src))"
    using cs exs by simp_all
  have nb: "\<not> blank (Abs ?src)" and dp: "\<not> blank (dirname (Abs ?src))"
    by simp_all
  from move_file_onto_existing [OF wfs src' nb assms(4) exs' dp] obtain k fs' where k: "1 \<le> k"
    "move_file (Abs ?src) (Abs ?src) ?s = (True, fs')"
    "\<forall>j. 1 \<le> j \<and> j < k \<longrightarrow> path_exists ?s (candidate ?src j)"
    "\<not> path_exists ?s (candidate ?src k)"
    "\<forall>q. node_at fs' q = (if q = candidate ?src k then Some (File b)
                  else if q = ?src then None else node_at ?s q)"
    by auto
  have name: "stem_of file @ lower (suffix_of file) = file"
    using assms(5) by (simp add: stem_suffix)
  have org: "?s' = fs'"
    using delete_if_empty_nonempty [OF cs assms(4)] name k(2)
    by (simp add: organize_file_def)
  have step: "wf_fs ?s'" "is_dir ?s' folder_path"
    using organize_file_step(1,2) [OF wfs dirs, of "file"] before [of "file"] ats
    by (simp_all add: is_file_def)
  define c where "c = last (candidate ?src k)"
  have cand: "candidate ?src k = folder_path @ [c]"
    using append_butlast_last_id [OF candidate_nonroot, of ?src k]
    by (simp add: c_def butlast_candidate)
  have post: "is_file ?s (folder_path @ [g]) \<and> g \<noteq> file \<and> g \<noteq> c" if "g \<in> set post" for g
  proof -
    have f: "is_file ?s (folder_path @ [g])"
      using before [of g] files [of g] that by (simp add: is_file_def)
    then have "path_exists ?s (folder_path @ [g])"
      by (auto simp: is_file_def path_exists_def split: option.splits)
    then have "g \<noteq> c"
      using k(4) cand by auto
    moreover have "g \<noteq> file"
      using dist that by auto
    ultimately show ?thesis using f by simp
  qed
  have post': "\<forall>g \<in> set post. is_file ?s' (folder_path @ [g])"
    using post k(5) org cand by (auto simp: is_file_def)
  have "c \<notin> set post"
    using post by blast
  moreover have "node_at ?s' (folder_path @ [c]) \<noteq> None"
    using k(5) org cand by simp
  moreover have "distinct post"
    using dist by simp
  ultimately have "node_at (organize_files folder_path folder_path post ?s') (folder_path @ [c])
                     = node_at ?s' (folder_path @ [c])"
    using organize_files_before [OF step post'] by blast
  moreover have "?end = organize_files folder_path folder_path post ?s'"
    by (simp add: assms(2) organize_files_append)
  ultimately have fin: "contents ?end (candidate ?src k) = Some b"
    using k(5) org cand by (simp add: contents_def)
  have pass: "move_files (Suc n) folder_path fs = Some ?end"
    if scan: "list_dirs fs folder_path = []" for n
  proof -
    have "node_at ?end (candidate ?src k) = Some (File b)"
      using fin by (auto simp: contents_def split: option.splits node.splits)
    from listdir_nonempty [OF this candidate_nonroot]
    have "listdir ?end folder_path \<noteq> []"
      by (simp add: butlast_candidate)
    then have "remove_empty_dir folder_path ?end = ?end"
      by (simp add: remove_empty_dir_def)
    then show ?thesis
      using scan dir is_dir_exists [OF dir] by (simp add: move_files_def)
  qed
  have nm: "k = 1 \<longrightarrow> candidate ?src k =
              folder_path @ [fst (splitext file) @ ''_1'' @ snd (splitext file)]"
    by (simp add: candidate_def name_of_def str_nat_1_2 split: prod.splits)
  have first: "\<not> path_exists ?s (candidate ?src 1) \<longrightarrow> k = 1"
    using k(1,3) by (metis le_neq_implies_less order_refl)
  have nodes: "\<forall>q. node_at ?s' q = (if q = candidate ?src k then Some (File b)
                  else if q = ?src then None else node_at ?s q)"
    using k(5) org by simp
  show ?thesis
    using k(1,3,4) cs nodes nm first fin pass by blast
qed


theorem organize_renames_file_in_place_witness:
  "wf_fs a_beside_a_1 \<and> list_files a_beside_a_1 [''r''] = [] @ ''a.txt'' # [''a_1.txt'', ''B.TXT'']
   \<and> contents a_beside_a_1 ([''r''] @ [''a.txt'']) = Some (Data 3)
   \<and> blob_size (Data 3) \<noteq> 0 \<and> lower (suffix_of ''a.txt'') = suffix_of ''a.txt''
   \<and> (\<exists>k\<ge>1. \<exists>s s'. s = organize_files [''r''] [''r''] [] a_beside_a_1
           \<and> s' = organize_file [''r''] [''r''] ''a.txt'' s
           \<and> contents s ([''r''] @ [''a.txt'']) = Some (Data 3)
           \<and> (\<forall>j. 1 \<le> j \<and> j < k \<longrightarrow> path_exists s (candidate ([''r''] @ [''a.txt'']) j))
           \<and> \<not> path_exists s (candidate ([''r''] @ [''a.txt'']) k)
           \<and> (\<forall>q. node_at s' q =
                 (if q = candidate ([''r''] @ [''a.txt'']) k then Some (File (Data 3))
                  else if q = [''r''] @ [''a.txt''] then None else node_at s q))
           \<and> (k = 1 \<longrightarrow> candidate ([''r''] @ [''a.txt'']) k =
                  [''r''] @ [fst (splitext ''a.txt'') @ ''_1'' @ snd (splitext ''a.txt'')])
           \<and> (\<not> path_exists s (candidate ([''r''] @ [''a.txt'']) 1) \<longrightarrow> k = 1)
           \<and> contents (organize_files [''r''] [''r''] (list_files a_beside_a_1 [''r'']) a_beside_a_1)
                (candidate ([''r''] @ [''a.txt'']) k) = Some (Data 3)
           \<and> (list_dirs a_beside_a_1 [''r''] = [] \<longrightarrow>
                (\<forall>n. move_files (Suc n) [''r''] a_beside_a_1
                       = Some (organize_files [''r''] [''r''] (list_files a_beside_a_1 [''r''])
                                 a_beside_a_1))))"
proof -
  have h1: "wf_fs a_beside_a_1" by code_simp
  have h2: "list_files a_beside_a_1 [''r''] = [] @ ''a.txt'' # [''a_1.txt'', ''B.TXT'']"
    by code_simp
  have h3: "contents a_beside_a_1 ([''r''] @ [''a.txt'']) = Some (Data 3)" by code_simp
  have h4: "blob_size (Data 3) \<noteq> 0" by simp
  have h5: "lower (suffix_of ''a.txt'') = suffix_of ''a.txt''" by code_simp
  show ?thesis
    by (rule conjI [OF h1 conjI [OF h2 conjI [OF h3 conjI [OF h4 conjI [OF h5
          organize_renames_file_in_place [OF h1 h2 h3 h4 h5]]]]]])
qed

text \<open>
  Claim C7 says that one pass leaves no empty subdirectory. The walk is top-down: the
  directory \<open>/r/a\<close> is visited while it still holds \<open>/r/a/b\<close>, which becomes empty and is
  removed only later, so after the pass \<open>/r/a\<close> is an empty directory.
\<close>

theorem organize_leaves_empty_parent:
  "move_files 3 [''r''] nested_dirs
     = Some [([''r''], Dir), ([''r'', ''a''], Dir), ([''r'', ''f.txt''], File (Data 3))]
   \<and> is_dir [([''r''], Dir), ([''r'', ''a''], Dir), ([''r'', ''f.txt''], File (Data 3))] [''r'', ''a'']
   \<and> listdir [([''r''], Dir), ([''r'', ''a''], Dir), ([''r'', ''f.txt''], File (Data 3))] [''r'', ''a'']
       = []"
  by code_simp

section \<open>batch_extract\<close>

lemma started_one: "started sched (Suc 0) = [] \<or> started sched (Suc 0) = [0]"
proof -
  have "set (started sched (Suc 0)) \<subseteq> {0}" and ds: "distinct (started sched (Suc 0))"
    by (auto simp: started_def)
  then show ?thesis
  proof (cases "started sched (Suc 0)")
    case Nil
    then show ?thesis by simp
  next
    case (Cons i rest)
    with \<open>set (started sched (Suc 0)) \<subseteq> {0}\<close> have i: "i = 0" and sub: "set rest \<subseteq> {0}"
      by auto
    from ds Cons i have "0 \<notin> set rest"
      by simp
    with sub have "rest = []"
      by (cases rest) auto
    with Cons i show ?thesis
      by simp
  qed
qed

lemma batch_of_one:
  "batch_extract pr n sched [file_path] destination fs
     = (case extract_files_recursive pr n file_path destination fs of
          None \<Rightarrow> None
        | Some (r, fs1) \<Rightarrow> Some (collect [Some r], fs1))"
  using started_one [of sched]
  by (auto simp: batch_extract_def pending_def split: option.splits)

text \<open>
  Claim C2 says that \<open>batch_extract\<close> never lets an exception reach its caller. For the one
  path \<open>/in/x.zip\<close>, a directory, the probe goes by the name, the handler fails on the
  directory, the \<open>os.remove\<close> of the \<open>except\<close> branch, which is there to clean up after a
  failed extraction, raises \<open>IsADirectoryError\<close> out of the handler that was to return
  false, and the exception reaches the caller of \<open>batch_extract\<close>.
\<close>

theorem batch_lets_exception_escape:
  "batch_extract sniff 1 [] [[''in'', ''x.zip'']] [''out''] photos_tree
     = Some (Inl IsADirectoryError, photos_tree)
   \<and> archive_extract [''in'', ''x.zip''] [''out''] photos_tree = (Inl IsADirectoryError, photos_tree)
   \<and> is_dir photos_tree [''in'', ''x.zip'']"
  by code_simp

section \<open>extract_files_recursive on nested archives\<close>

lemma update_fresh: "p \<notin> fst ` set al \<Longrightarrow> AList.update p v al = al @ [(p, v)]"
  by (induction al) auto

lemma delete_append: "AList.delete k (xs @ ys) = AList.delete k xs @ AList.delete k ys"
  by (simp add: AList.delete_eq)

lemma node_at_append_old:
  "q \<notin> fst ` set ys \<Longrightarrow> node_at (xs @ ys) q = node_at xs q"
proof -
  assume "q \<notin> fst ` set ys"
  then have "map_of ys q = None"
    by (simp add: map_of_eq_None_iff)
  then show ?thesis
    by (simp add: node_at_def map_add_def split: option.splits)
qed

lemma node_at_append_new:
  "q \<notin> fst ` set xs \<Longrightarrow> q \<noteq> [] \<Longrightarrow> node_at (xs @ [(q, n)]) q = Some n"
proof -
  assume "q \<notin> fst ` set xs" and "q \<noteq> []"
  then have "map_of xs q = None"
    by (simp add: map_of_eq_None_iff)
  with \<open>q \<noteq> []\<close> show ?thesis
    by (simp add: node_at_def map_add_def)
qed

lemma listdir_empty_iff:
  "listdir fs d = [] \<longleftrightarrow> (\<forall>(q, n) \<in> set fs. q \<noteq> [] \<longrightarrow> butlast q \<noteq> d)"
  by (auto simp: listdir_def filter_empty_conv)

lemma listdir_empty_files_dirs:
  "listdir fs d = [] \<Longrightarrow> list_files fs d = [] \<and> list_dirs fs d = []"
  by (auto simp: listdir_def list_files_def list_dirs_def filter_empty_conv)

lemma listing_append_file:
  "list_files (xs @ [(d @ [name], File b)]) d = list_files xs d @ [name]"
  "list_dirs (xs @ [(d @ [name], File b)]) d = list_dirs xs d"
  "listdir (xs @ [(d @ [name], File b)]) d = listdir xs d @ [name]"
  by (simp_all add: list_files_def list_dirs_def listdir_def)

lemma contents_file: "contents fs p = Some b \<longleftrightarrow> node_at fs p = Some (File b)"
  by (auto simp: contents_def split: option.splits node.splits)

lemma keys_delete: "fst ` set (AList.delete k al) = fst ` set al - {k}"
  by (auto simp: AList.delete_eq image_iff)

lemma extract_single_member:
  assumes wf: "wf_fs fs" and dir: "is_dir fs d"
      and arch: "contents fs p = Some (Packed f [([name], b)])"
      and rd: "reads (handler (lower (suffix_of (name_of p)))) f"
      and fresh: "d @ [name] \<notin> fst ` set fs"
  shows "archive_extract p d fs = (Inr True, AList.delete p fs @ [(d @ [name], File b)])"
proof -
  let ?new = "(d @ [name], File b)"
  have at: "node_at fs p = Some (File (Packed f [([name], b)]))"
    using arch by (simp add: contents_file)
  have pne: "p \<noteq> []"
    using at by (auto simp: node_at_def split: if_splits)
  then have "path_exists fs p"
    using at by (simp add: path_exists_def)
  with pne have pkey: "p \<in> fst ` set fs"
    by (simp add: path_exists_keys)
  have neq: "p \<noteq> d @ [name]"
    using pkey fresh by blast
  have emp: "is_empty fs p = Inr False"
    using arch by (simp add: is_empty_file)
  have mk: "makedirs d fs = (Inr (), fs)"
    using wf dir by (rule makedirs_existing_dir)
  have nd: "\<not> is_dir fs (d @ [name])"
    using fresh is_dir_exists [of fs "d @ [name]"] by (auto simp: path_exists_keys)
  have "write_members d [([name], b)] fs = (Inr (), fs @ [?new])"
    using mk nd fresh by (simp add: update_fresh)
  then have dec: "decode (handler (lower (suffix_of (name_of p)))) p d fs = (Inr (), fs @ [?new])"
    using at rd by (simp add: decode_def)
  have "node_at (fs @ [?new]) p = node_at fs p"
    using neq by (intro node_at_append_old) simp
  then have "is_file (fs @ [?new]) p"
    using at by (simp add: is_file_def)
  then have "os_remove p (fs @ [?new]) = (Inr (), AList.delete p fs @ [?new])"
    using neq by (simp add: os_remove_file delete_append)
  then show ?thesis
    using emp dec by (simp add: archive_extract_def)
qed

lemma wf_after_extract:
  assumes wf: "wf_fs fs" and dir: "is_dir fs d"
      and isf: "is_file fs p" and fresh: "d @ [name] \<notin> fst ` set fs"
  shows "wf_fs (AList.delete p fs @ [(d @ [name], File b)])"
    and "is_dir (AList.delete p fs @ [(d @ [name], File b)]) d"
proof -
  let ?fs1 = "AList.delete p fs @ [(d @ [name], File b)]"
  have keep: "is_dir ?fs1 q" if "is_dir fs q" for q
  proof (cases "q = []")
    case True
    then show ?thesis by (simp add: is_dir_def)
  next
    case False
    have "q \<noteq> p"
      using that isf by (auto simp: is_dir_def is_file_def)
    moreover have "q \<noteq> d @ [name]"
      using fresh is_dir_exists [OF that] by (auto simp: path_exists_keys)
    ultimately show ?thesis
      using that by (simp add: is_dir_def node_at_append_old node_at_delete)
  qed
  show "is_dir ?fs1 d"
    using dir by (rule keep)
  have dist: "distinct (map fst ?fs1)"
    using wf fresh by (auto simp: wf_fs_def distinct_delete keys_delete)
  have "q \<noteq> [] \<and> is_dir ?fs1 (butlast q)" if "(q, n) \<in> set ?fs1" for q n
  proof (cases "(q, n) = (d @ [name], File b)")
    case True
    then show ?thesis using keep [OF dir] by simp
  next
    case False
    with that have "(q, n) \<in> set fs"
      by (auto simp: AList.delete_eq)
    then show ?thesis
      using wf_entry [OF wf] keep by blast
  qed
  with dist show "wf_fs ?fs1"
    unfolding wf_fs_def by blast
qed

lemma walk_single:
  assumes "is_dir fs1 d" and "list_files fs1 d = [name]" and "list_dirs fs1 d = []"
  shows "walk_extract recurse pr (Suc n) [d] fs1 =
           (if is_archive pr fs1 (d @ [name])
            then (case recurse (d @ [name]) d fs1 of
                    None \<Rightarrow> None
                  | Some (Inl e, fs2) \<Rightarrow> Some (Inl e, fs2)
                  | Some (Inr b, fs2) \<Rightarrow> Some (Inr (), fs2))
            else Some (Inr (), fs1))"
  using assms by (simp split: option.splits prod.splits sum.splits)

lemma efr_single:
  assumes ex: "path_exists fs p" and ar: "is_archive pr fs p"
      and ext: "archive_extract p d fs = (Inr True, fs1)"
      and dir: "is_dir fs1 d" and files: "list_files fs1 d = [name]" and dirs: "list_dirs fs1 d = []"
  shows "extract_files_recursive pr (Suc (Suc n)) p d fs =
           (if is_archive pr fs1 (d @ [name])
            then (case extract_files_recursive pr (Suc n) (d @ [name]) d fs1 of
                    None \<Rightarrow> None
                  | Some (Inl e, fs2) \<Rightarrow> Some (Inl e, fs2)
                  | Some (Inr b, fs2) \<Rightarrow> Some (Inr True, fs2))
            else Some (Inr True, fs1))"
proof -
  have "extract_files_recursive pr (Suc (Suc n)) p d fs =
          (case walk_extract (extract_files_recursive pr (Suc n)) pr (Suc n) [d] fs1 of
             None \<Rightarrow> None
           | Some (Inl e, fs2) \<Rightarrow> Some (Inl e, fs2)
           | Some (Inr u, fs2) \<Rightarrow> Some (Inr True, fs2))"
    using ex ar ext by (subst extract_files_recursive.simps(2)) simp
  also have "\<dots> = (if is_archive pr fs1 (d @ [name])
            then (case extract_files_recursive pr (Suc n) (d @ [name]) d fs1 of
                    None \<Rightarrow> None
                  | Some (Inl e, fs2) \<Rightarrow> Some (Inl e, fs2)
                  | Some (Inr b, fs2) \<Rightarrow> Some (Inr True, fs2))
            else Some (Inr True, fs1))"
    by (subst walk_single [OF dir files dirs])
       (simp split: option.splits prod.splits sum.splits del: extract_files_recursive.simps)
  finally show ?thesis .
qed

lemma extract_into_empty_destination:
  assumes wf: "wf_fs fs" and dir: "is_dir fs d"
      and empty: "listdir (AList.delete p fs) d = []"
      and arch: "contents fs p = Some (Packed f [([name], b)])"
      and rd: "reads (handler (lower (suffix_of (name_of p)))) f"
      and other: "name \<noteq> name_of p"
  defines "fs1 \<equiv> AList.delete p fs @ [(d @ [name], File b)]"
  shows "archive_extract p d fs = (Inr True, fs1)"
    and "wf_fs fs1" and "is_dir fs1 d"
    and "list_files fs1 d = [name]" and "list_dirs fs1 d = []" and "listdir fs1 d = [name]"
    and "contents fs1 (d @ [name]) = Some b"
    and "AList.delete (d @ [name]) fs1 = AList.delete p fs"
proof -
  have isf: "is_file fs p"
    using arch by (auto simp: contents_def is_file_def split: option.splits node.splits)
  have pne: "p \<noteq> []"
    using isf by (rule is_file_nonroot)
  have neq: "d @ [name] \<noteq> p"
    using other pne by (auto simp: name_of_def)
  have notin: "d @ [name] \<notin> fst ` set (AList.delete p fs)"
  proof
    assume "d @ [name] \<in> fst ` set (AList.delete p fs)"
    then obtain n where "(d @ [name], n) \<in> set (AList.delete p fs)"
      by auto
    with empty show False
      by (auto simp: listdir_empty_iff)
  qed
  then have fresh: "d @ [name] \<notin> fst ` set fs"
    using neq by (simp add: keys_delete)
  show "archive_extract p d fs = (Inr True, fs1)"
    unfolding fs1_def using wf dir arch rd fresh by (rule extract_single_member)
  show "wf_fs fs1" and "is_dir fs1 d"
    unfolding fs1_def using wf_after_extract [OF wf dir isf fresh] by simp_all
  show "list_files fs1 d = [name]" and "list_dirs fs1 d = []" and "listdir fs1 d = [name]"
    unfolding fs1_def using listdir_empty_files_dirs [OF empty] empty
    by (simp_all add: listing_append_file)
  show "contents fs1 (d @ [name]) = Some b"
    unfolding fs1_def using notin by (simp add: contents_file node_at_append_new)
  show "AList.delete (d @ [name]) fs1 = AList.delete p fs"
    unfolding fs1_def using notin by (simp add: delete_append)
qed

lemma chain_nonempty_name:
  "levels \<noteq> [] \<Longrightarrow> snd (chain levels leaf)
     = Packed (snd (hd levels)) [([fst (chain (tl levels) leaf)], snd (chain (tl levels) leaf))]
   \<and> fst (chain levels leaf) = fst (hd levels)"
  by (cases levels) auto







text \<open>
  Claim C8 says that every job extracts into a private subdirectory, so that two jobs
  never write into the same directory. Both jobs of this batch write \<open>/out/note.txt\<close>:
  the destination holds one file, that of the job that ran last, and no subdirectory.
\<close>

theorem batch_shares_destination:
  "batch_extract sniff 2 [] [[''in'', ''a.zip''], [''in'', ''b.zip'']] [''out''] two_archives
     = Some (Inr [True, True],
             [([''in''], Dir), ([''out''], Dir), ([''out'', ''note.txt''], File (Data 2))])"
  by code_simp

text \<open>
  Claim C8, amended: \<open>batch_extract\<close> hands the caller's destination itself to every job
  and creates no job-private subdirectory: the job of an archive with one member, run
  on a destination directory that holds nothing else, writes the member directly into
  the destination, which then holds this file and no subdirectory. Jobs of one batch
  therefore write into the same directory.
\<close>

theorem job_extracts_into_raw_destination:
  assumes "wf_fs fs" and "is_dir fs destination"
      and "listdir (AList.delete file_path fs) destination = []"
      and "contents fs file_path = Some (Packed f [([name], b)])"
      and "reads (handler (lower (suffix_of (name_of file_path)))) f"
      and "name \<noteq> name_of file_path"
      and "pr (name_of file_path) (Some (Packed f [([name], b)]))"
      and "\<not> pr name (Some b)"
  shows "\<exists>fs'. batch_extract pr (Suc (Suc n)) sched [file_path] destination fs
                 = Some (Inr [True], fs')
           \<and> contents fs' (destination @ [name]) = Some b
           \<and> listdir fs' destination = [name]
           \<and> list_dirs fs' destination = []"
proof -
  let ?fs1 = "AList.delete file_path fs @ [(destination @ [name], File b)]"
  note step = extract_into_empty_destination [OF assms(1-6)]
  have ex: "path_exists fs file_path"
    using assms(4) by (auto simp: contents_def path_exists_def split: option.splits)
  have ar: "is_archive pr fs file_path"
    using assms(4,7) by (simp add: is_archive_def)
  have "\<not> is_archive pr ?fs1 (destination @ [name])"
    using step(7) assms(8) by (simp add: is_archive_def name_of_def)
  then have "extract_files_recursive pr (Suc (Suc n)) file_path destination fs
               = Some (Inr True, ?fs1)"
    using efr_single [OF ex ar step(1) step(3) step(4) step(5)] by simp
  then have "batch_extract pr (Suc (Suc n)) sched [file_path] destination fs
               = Some (Inr [True], ?fs1)"
    by (simp add: batch_of_one del: extract_files_recursive.simps)
  then show ?thesis
    using step(5,6,7) by blast
qed

theorem job_extracts_into_raw_destination_witness:
  "wf_fs two_archives \<and> is_dir two_archives [''out'']
   \<and> listdir (AList.delete [''in'', ''a.zip''] two_archives) [''out''] = []
   \<and> contents two_archives [''in'', ''a.zip''] = Some (Packed Zip [([''note.txt''], Data 1)])
   \<and> reads (handler (lower (suffix_of (name_of [''in'', ''a.zip''])))) Zip
   \<and> ''note.txt'' \<noteq> name_of [''in'', ''a.zip'']
   \<and> sniff (name_of [''in'', ''a.zip'']) (Some (Packed Zip [([''note.txt''], Data 1)]))
   \<and> \<not> sniff ''note.txt'' (Some (Data 1))
   \<and> (\<exists>fs'. batch_extract sniff (Suc (Suc 0)) [] [[''in'', ''a.zip'']] [''out''] two_archives
                 = Some (Inr [True], fs')
           \<and> contents fs' ([''out''] @ [''note.txt'']) = Some (Data 1)
           \<and> listdir fs' [''out''] = [''note.txt'']
           \<and> list_dirs fs' [''out''] = [])"
proof -
  have h1: "wf_fs two_archives" by code_simp
  have h2: "is_dir two_archives [''out'']" by code_simp
  have h3: "listdir (AList.delete [''in'', ''a.zip''] two_archives) [''out''] = []" by code_simp
  have h4: "contents two_archives [''in'', ''a.zip''] = Some (Packed Zip [([''note.txt''], Data 1)])"
    by code_simp
  have h5: "reads (handler (lower (suffix_of (name_of [''in'', ''a.zip''])))) Zip" by code_simp
  have h6: "''note.txt'' \<noteq> name_of [''in'', ''a.zip'']" by code_simp
  have h7: "sniff (name_of [''in'', ''a.zip'']) (Some (Packed Zip [([''note.txt''], Data 1)]))"
    by code_simp
  have h8: "\<not> sniff ''note.txt'' (Some (Data 1))" by code_simp
  show ?thesis
    by (rule conjI [OF h1 conjI [OF h2 conjI [OF h3 conjI [OF h4 conjI [OF h5 conjI [OF h6
          conjI [OF h7 conjI [OF h8
            job_extracts_into_raw_destination [OF h1 h2 h3 h4 h5 h6 h7 h8]]]]]]]]])
qed

end
